theory Spec2Isabelle
  imports Main "HOL-Library.Sublist" "HOL-Library.Multiset"
begin

section \<open>Text\<close>

text \<open>
  The program is Python 2. Its text values are \<^verbatim>\<open>unicode\<close> objects: sequences of code
  points, where \<^verbatim>\<open>len\<close> counts code points and indexing yields a one-character string.
  A character is modelled by its code point, a text by the list of its code points.
  Byte strings of the operating system (environment values, file names, file contents)
  are \<^typ>\<open>string\<close>; \<open>u\<close> reads an ASCII byte string as text.
\<close>

type_synonym uchar = nat
type_synonym ustring = "uchar list"

definition u :: "string \<Rightarrow> ustring" where
  "u s = map of_char s"

text \<open>
  The methods \<^verbatim>\<open>unicode.lower\<close>, \<^verbatim>\<open>unicode.upper\<close> and the function
  \<^verbatim>\<open>unicodedata.normalize\<close> belong to the Python runtime, not to the repository.
  Their character tables are parameters of the model. In Python 2 both case
  conversions map one character to one character. \<open>decomp\<close> is the full canonical
  decomposition of a single character.
\<close>

record unicodedata =
  lower :: "uchar \<Rightarrow> uchar"
  upper :: "uchar \<Rightarrow> uchar"
  decomp :: "uchar \<Rightarrow> ustring"

text \<open>
  \<^verbatim>\<open>fold_diacritics\<close>: \<^verbatim>\<open>normalize('NFD', u)\<close> replaces every character by its canonical
  decomposition and then reorders runs of combining marks; \<^verbatim>\<open>encode('us-ascii', 'ignore')\<close>
  drops every character above 127. Combining marks are above 127, so the reordering
  cannot be seen in the result.
\<close>

definition fold_diacritics :: "unicodedata \<Rightarrow> ustring \<Rightarrow> ustring" where
  "fold_diacritics U s = filter (\<lambda>c. c < 128) (concat (map (decomp U) s))"

definition isascii :: "unicodedata \<Rightarrow> ustring \<Rightarrow> bool" where
  "isascii U s \<longleftrightarrow> s = fold_diacritics U s"

text \<open>
  Tables used for concrete runs: the case mapping of the ASCII letters, and the
  decomposition of U+00E9 (e with acute) into U+0065 U+0301. They agree with the
  Unicode tables on every character that the concrete runs below contain.
\<close>

definition ascii_lower :: "uchar \<Rightarrow> uchar" where
  "ascii_lower c = (if 65 \<le> c \<and> c \<le> 90 then c + 32 else c)"

definition ascii_upper :: "uchar \<Rightarrow> uchar" where
  "ascii_upper c = (if 97 \<le> c \<and> c \<le> 122 then c - 32 else c)"

definition sample_decomp :: "uchar \<Rightarrow> ustring" where
  "sample_decomp c = (if c = 233 then [101, 769] else [c])"

definition sample_tables :: unicodedata where
  "sample_tables = \<lparr>lower = ascii_lower, upper = ascii_upper, decomp = sample_decomp\<rparr>"

section \<open>The matcher\<close>

text \<open>
  An instance of class \<^verbatim>\<open>Fuzzy\<close>: the seven weights and the memo \<^verbatim>\<open>_cache\<close>, a
  dictionary from (query, terms) to the result of \<^verbatim>\<open>match\<close>.
\<close>

record fuzzy =
  adj_bonus :: int
  sep_bonus :: int
  camel_bonus :: int
  lead_penalty :: int
  max_lead_penalty :: int
  unmatched_penalty :: int
  separators :: ustring
  match_cache :: "(ustring \<times> ustring) \<rightharpoonup> (bool \<times> int)"

text \<open>\<^verbatim>\<open>Fuzzy()\<close> with the module defaults, no environment override.\<close>

definition default_fuzzy :: fuzzy where
  "default_fuzzy = \<lparr>adj_bonus = 5, sep_bonus = 10, camel_bonus = 10, lead_penalty = - 3,
     max_lead_penalty = - 9, unmatched_penalty = - 1, separators = u ''_-.([/ '',
     match_cache = Map.empty\<rparr>"

text \<open>The local variables of \<^verbatim>\<open>match\<close> that live across iterations of its loop.\<close>

record scan =
  score :: int
  q_idx :: nat
  t_idx :: nat
  prev_match :: bool
  prev_lower :: bool
  prev_sep :: bool
  best_letter :: "uchar option"
  best_lower :: "uchar option"
  best_letter_idx :: "nat option"
  best_letter_score :: int
  matched_indices :: "nat option list"

definition scan_init :: scan where
  "scan_init = \<lparr>score = 0, q_idx = 0, t_idx = 0, prev_match = False, prev_lower = False,
     prev_sep = True, best_letter = None, best_lower = None, best_letter_idx = None,
     best_letter_score = 0, matched_indices = []\<rparr>"

text \<open>
  The loop body is modelled block by block. First block: the pending best letter is
  committed (\<^verbatim>\<open>if advanced or p_repeat\<close>).
\<close>

definition commit_best :: "scan \<Rightarrow> scan" where
  "commit_best st =
     st\<lparr>score := score st + best_letter_score st,
        matched_indices := matched_indices st @ [best_letter_idx st],
        best_letter := None, best_lower := None, best_letter_idx := None,
        best_letter_score := 0\<rparr>"

text \<open>\<^verbatim>\<open>if q_idx == 0: score += max(t_idx * lead_penalty, max_lead_penalty)\<close>\<close>

definition add_lead_penalty :: "fuzzy \<Rightarrow> scan \<Rightarrow> scan" where
  "add_lead_penalty self st =
     (if q_idx st = 0
      then st\<lparr>score := score st + max (int (t_idx st) * lead_penalty self) (max_lead_penalty self)\<rparr>
      else st)"

text \<open>The value of \<open>new_score\<close> after the three bonus tests.\<close>

definition new_score_at :: "unicodedata \<Rightarrow> fuzzy \<Rightarrow> uchar \<Rightarrow> scan \<Rightarrow> int" where
  "new_score_at U self s_char st =
     (if prev_match st then adj_bonus self else 0)
     + (if prev_sep st then sep_bonus self else 0)
     + (if prev_lower st \<and> s_char = upper U s_char \<and> lower U s_char \<noteq> upper U s_char
        then camel_bonus self else 0)"

text \<open>\<^verbatim>\<open>if new_score >= best_letter_score\<close>: the character becomes the best letter.\<close>

definition update_best :: "unicodedata \<Rightarrow> fuzzy \<Rightarrow> uchar \<Rightarrow> int \<Rightarrow> scan \<Rightarrow> scan" where
  "update_best U self s_char new_score st =
     (if new_score \<ge> best_letter_score st
      then (if best_letter st \<noteq> None
            then st\<lparr>score := score st + unmatched_penalty self\<rparr>
            else st)
           \<lparr>best_letter := Some s_char, best_lower := Some (lower U s_char),
            best_letter_idx := Some (t_idx st), best_letter_score := new_score\<rparr>
      else st)"

text \<open>The branch \<^verbatim>\<open>if next_match or rematch\<close> and its \<^verbatim>\<open>else\<close>.\<close>

definition on_match :: "unicodedata \<Rightarrow> fuzzy \<Rightarrow> uchar \<Rightarrow> bool \<Rightarrow> scan \<Rightarrow> scan" where
  "on_match U self s_char next_match st =
     (let st3 = add_lead_penalty self st;
          new_score = new_score_at U self s_char st3;
          st4 = (if next_match then st3\<lparr>q_idx := q_idx st3 + 1\<rparr> else st3)
      in (update_best U self s_char new_score st4)\<lparr>prev_match := True\<rparr>)"

definition on_miss :: "fuzzy \<Rightarrow> scan \<Rightarrow> scan" where
  "on_miss self st = st\<lparr>score := score st + unmatched_penalty self, prev_match := False\<rparr>"

text \<open>
  One iteration, for the character \<open>s_char = terms[t_idx]\<close>. A one-character string is
  truthy, so \<^verbatim>\<open>p_char and ...\<close> and \<^verbatim>\<open>best_letter and ...\<close> test against \<^verbatim>\<open>None\<close> only.
  The four flags are computed before the first block runs, as in the source.
\<close>

definition match_step :: "unicodedata \<Rightarrow> fuzzy \<Rightarrow> ustring \<Rightarrow> uchar \<Rightarrow> scan \<Rightarrow> scan" where
  "match_step U self query s_char st =
    (let p_char = (if q_idx st \<noteq> length query then Some (query ! q_idx st) else None);
         p_lower = map_option (lower U) p_char;
         s_lower = lower U s_char;
         s_upper = upper U s_char;
         next_match = (p_char \<noteq> None \<and> p_lower = Some s_lower);
         rematch = (best_letter st \<noteq> None \<and> best_lower st = Some s_lower);
         advanced = (next_match \<and> best_letter st \<noteq> None);
         p_repeat = (best_letter st \<noteq> None \<and> p_char \<noteq> None \<and> best_lower st = p_lower);
         st1 = (if advanced \<or> p_repeat then commit_best st else st);
         st2 = (if next_match \<or> rematch
                then on_match U self s_char next_match st1
                else on_miss self st1)
     in st2\<lparr>prev_lower := (s_char = s_lower \<and> s_lower \<noteq> s_upper),
            prev_sep := (s_char \<in> set (separators self)),
            t_idx := t_idx st2 + 1\<rparr>)"

text \<open>
  The loop \<^verbatim>\<open>while t_idx != t_len\<close> starts at \<open>t_idx = 0\<close> and adds one per iteration:
  it visits the characters of \<open>terms\<close> in order, which is the recursion over the list.
\<close>

fun match_loop :: "unicodedata \<Rightarrow> fuzzy \<Rightarrow> ustring \<Rightarrow> ustring \<Rightarrow> scan \<Rightarrow> scan" where
  "match_loop U self query [] st = st"
| "match_loop U self query (s_char # rest) st =
     match_loop U self query rest (match_step U self query s_char st)"

text \<open>The code after the loop: the pending best letter is committed.\<close>

definition match_finish :: "scan \<Rightarrow> scan" where
  "match_finish st =
    (if best_letter st \<noteq> None
     then st\<lparr>score := score st + best_letter_score st,
             matched_indices := matched_indices st @ [best_letter_idx st]\<rparr>
     else st)"

text \<open>The value \<open>res\<close> that \<^verbatim>\<open>match\<close> computes when the memo has no entry.\<close>

definition match_res :: "unicodedata \<Rightarrow> fuzzy \<Rightarrow> ustring \<Rightarrow> ustring \<Rightarrow> bool \<times> int" where
  "match_res U self query terms =
    (let st = match_finish (match_loop U self query terms scan_init)
     in (q_idx st = length query, score st))"

text \<open>\<^verbatim>\<open>Fuzzy.match\<close>: the result and the instance with its memo updated.\<close>

definition match :: "unicodedata \<Rightarrow> fuzzy \<Rightarrow> ustring \<Rightarrow> ustring \<Rightarrow> (bool \<times> int) \<times> fuzzy" where
  "match U self query terms =
    (case match_cache self (query, terms) of
       Some res \<Rightarrow> (res, self)
     | None \<Rightarrow>
        (let res = match_res U self query terms
         in (res, self\<lparr>match_cache := (match_cache self)((query, terms) \<mapsto> res)\<rparr>)))"

section \<open>Feedback documents\<close>

text \<open>
  The values that \<^verbatim>\<open>json.loads\<close> returns: \<^verbatim>\<open>None\<close>, booleans, integers, text, lists and
  dictionaries with text keys. Floating-point numbers are left out of the model. A
  dictionary is represented by the list of its items in ascending key order, so that equal
  dictionaries are equal values; the iteration order of a Python 2 dictionary is
  unspecified and nothing below depends on it.
\<close>

datatype json =
    JNull
  | JBool bool
  | JInt int
  | JStr ustring
  | JArr "json list"
  | JObj "(ustring \<times> json) list"

datatype error =
    KeyError | TypeError | AttributeError | ValueError
  | CalledProcessError | OSError | IOError

text \<open>Comparison of two texts by code points, as \<^verbatim>\<open>cmp\<close> on \<^verbatim>\<open>unicode\<close>: \<open>-1\<close>, \<open>0\<close> or \<open>1\<close>.\<close>

fun cmp_ustring :: "ustring \<Rightarrow> ustring \<Rightarrow> int" where
  "cmp_ustring [] [] = 0"
| "cmp_ustring [] (y # ys) = - 1"
| "cmp_ustring (x # xs) [] = 1"
| "cmp_ustring (x # xs) (y # ys) =
     (if x < y then - 1 else if y < x then 1 else cmp_ustring xs ys)"

definition dict_get :: "(ustring \<times> json) list \<Rightarrow> ustring \<Rightarrow> json option" where
  "dict_get d k = map_of d k"

text \<open>\<^verbatim>\<open>d[k] = v\<close>: the item of key \<open>k\<close> is replaced, or added at its place in key order.\<close>

fun dict_set :: "(ustring \<times> json) list \<Rightarrow> ustring \<Rightarrow> json \<Rightarrow> (ustring \<times> json) list" where
  "dict_set [] k v = [(k, v)]"
| "dict_set ((k', v') # d) k v =
     (if k = k' then (k, v) # d
      else if cmp_ustring k k' < 0 then (k, v) # (k', v') # d
      else (k', v') # dict_set d k v)"

subsection \<open>Ordering of values in Python 2\<close>

text \<open>
  \<^verbatim>\<open>items.sort(reverse=True)\<close> sorts the pairs \<open>(score, it)\<close> themselves, so pairs of equal
  score are ordered by comparing the item dictionaries. The comparison is the one of the
  Python 2 runtime: \<^verbatim>\<open>None\<close> is below everything; numbers (booleans count as 0 and 1)
  compare by value and are below all other values; values of different other types compare
  by type name (\<^verbatim>\<open>dict\<close>, \<^verbatim>\<open>list\<close>, \<^verbatim>\<open>unicode\<close>); texts compare by code points; lists
  compare lexicographically; a dictionary with fewer items is below one with more, and
  dictionaries of the same size are compared at the smallest key where they differ, by key
  and then by value, which on item lists in key order is the lexicographic comparison.
\<close>

fun type_rank :: "json \<Rightarrow> nat" where
  "type_rank JNull = 0"
| "type_rank (JBool b) = 1"
| "type_rank (JInt i) = 1"
| "type_rank (JObj d) = 2"
| "type_rank (JArr xs) = 3"
| "type_rank (JStr s) = 4"

fun num_val :: "json \<Rightarrow> int" where
  "num_val (JBool b) = (if b then 1 else 0)"
| "num_val (JInt i) = i"
| "num_val j = 0"

definition cmp_int :: "int \<Rightarrow> int \<Rightarrow> int" where
  "cmp_int a b = (if a < b then - 1 else if b < a then 1 else 0)"

fun py_cmp :: "json \<Rightarrow> json \<Rightarrow> int"
  and py_cmp_list :: "json list \<Rightarrow> json list \<Rightarrow> int"
  and py_cmp_items :: "(ustring \<times> json) list \<Rightarrow> (ustring \<times> json) list \<Rightarrow> int"
where
  "py_cmp (JStr a) (JStr b) = cmp_ustring a b"
| "py_cmp (JArr xs) (JArr ys) = py_cmp_list xs ys"
| "py_cmp (JObj d) (JObj e) =
     (if length d < length e then - 1
      else if length e < length d then 1
      else py_cmp_items d e)"
| "py_cmp a b =
     (if type_rank a < type_rank b then - 1
      else if type_rank b < type_rank a then 1
      else cmp_int (num_val a) (num_val b))"
| "py_cmp_list [] [] = 0"
| "py_cmp_list [] (y # ys) = - 1"
| "py_cmp_list (x # xs) [] = 1"
| "py_cmp_list (x # xs) (y # ys) =
     (if py_cmp x y \<noteq> 0 then py_cmp x y else py_cmp_list xs ys)"
| "py_cmp_items [] e = (if e = [] then 0 else - 1)"
| "py_cmp_items (kv # d) [] = 1"
| "py_cmp_items (kv # d) (kv' # e) =
     (if cmp_ustring (fst kv) (fst kv') \<noteq> 0 then cmp_ustring (fst kv) (fst kv')
      else if py_cmp (snd kv) (snd kv') \<noteq> 0 then py_cmp (snd kv) (snd kv')
      else py_cmp_items d e)"

text \<open>
  \<open><\<close> on the pairs \<open>(score, it)\<close>: tuples are compared at their first unequal component.
\<close>

definition tuple_lt :: "int \<times> json \<Rightarrow> int \<times> json \<Rightarrow> bool" where
  "tuple_lt a b = (if fst a \<noteq> fst b then fst a < fst b else py_cmp (snd a) (snd b) < 0)"

text \<open>
  \<^verbatim>\<open>list.sort(reverse=True)\<close> is a stable sort into descending order: an element goes
  behind the elements that are greater and stays in front of the elements that follow it
  in the input and are not greater.
\<close>

fun insert_desc :: "('a \<Rightarrow> 'a \<Rightarrow> bool) \<Rightarrow> 'a \<Rightarrow> 'a list \<Rightarrow> 'a list" where
  "insert_desc lt x [] = [x]"
| "insert_desc lt x (y # ys) = (if lt x y then y # insert_desc lt x ys else x # y # ys)"

definition sort_reverse :: "('a \<Rightarrow> 'a \<Rightarrow> bool) \<Rightarrow> 'a list \<Rightarrow> 'a list" where
  "sort_reverse lt xs = foldr (insert_desc lt) xs []"

section \<open>The feedback filter\<close>

text \<open>
  \<^verbatim>\<open>it['match'] if 'match' in it else it['title']\<close>. An item that is not a dictionary
  raises \<^verbatim>\<open>TypeError\<close>, one with neither key raises \<^verbatim>\<open>KeyError\<close>.
\<close>

definition get_terms :: "json \<Rightarrow> error + json" where
  "get_terms it =
    (case it of
       JObj d \<Rightarrow>
         (case dict_get d (u ''match'') of
            Some v \<Rightarrow> Inr v
          | None \<Rightarrow> (case dict_get d (u ''title'') of Some v \<Rightarrow> Inr v | None \<Rightarrow> Inl KeyError))
     | _ \<Rightarrow> Inl TypeError)"

text \<open>
  \<^verbatim>\<open>for it in fb['items']\<close>: a list yields its elements, a text its characters, a
  dictionary its keys; anything else is not iterable.
\<close>

definition py_iter :: "json \<Rightarrow> error + json list" where
  "py_iter v =
    (case v of
       JArr xs \<Rightarrow> Inr xs
     | JStr s \<Rightarrow> Inr (map (\<lambda>c. JStr [c]) s)
     | JObj d \<Rightarrow> Inr (map (\<lambda>kv. JStr (fst kv)) d)
     | _ \<Rightarrow> Inl TypeError)"

text \<open>
  The loop of \<^verbatim>\<open>filter_feedback\<close> over the items, with the list \<open>items\<close> of scored
  survivors built so far; \<open>fold_mode\<close> is the variable \<^verbatim>\<open>fold\<close>. Terms that are not text raise \<^verbatim>\<open>TypeError\<close> (in
  \<^verbatim>\<open>normalize\<close>, or in \<^verbatim>\<open>len(terms)\<close> or the memo lookup of \<^verbatim>\<open>match\<close>).
\<close>

fun filter_loop ::
  "unicodedata \<Rightarrow> fuzzy \<Rightarrow> bool \<Rightarrow> ustring \<Rightarrow> json list \<Rightarrow> (int \<times> json) list
     \<Rightarrow> error + (fuzzy \<times> (int \<times> json) list)" where
  "filter_loop U self fold_mode query [] items = Inr (self, items)"
| "filter_loop U self fold_mode query (it # rest) items =
    (case get_terms it of
       Inl e \<Rightarrow> Inl e
     | Inr (JStr t) \<Rightarrow>
        (let terms = (if fold_mode then fold_diacritics U t else t);
             r = match U self query terms
         in if \<not> fst (fst r)
            then filter_loop U (snd r) fold_mode query rest items
            else filter_loop U (snd r) fold_mode query rest (items @ [(snd (fst r), it)]))
     | Inr _ \<Rightarrow> Inl TypeError)"

text \<open>
  \<^verbatim>\<open>Fuzzy.filter_feedback\<close> on the value of the dictionary \<open>fb\<close>: the result is the
  instance with its memo, and the dictionary after the assignment to \<^verbatim>\<open>fb['items']\<close>.
  When an exception is raised the dictionary has not been assigned to.
\<close>

definition filter_feedback ::
  "unicodedata \<Rightarrow> fuzzy \<Rightarrow> json \<Rightarrow> ustring \<Rightarrow> error + (fuzzy \<times> json)" where
  "filter_feedback U self fb query =
    (let fold_mode = isascii U query
     in case fb of
          JObj d \<Rightarrow>
            (case dict_get d (u ''items'') of
               None \<Rightarrow> Inl KeyError
             | Some v \<Rightarrow>
                (case py_iter v of
                   Inl e \<Rightarrow> Inl e
                 | Inr its \<Rightarrow>
                    (case filter_loop U self fold_mode query its [] of
                       Inl e \<Rightarrow> Inl e
                     | Inr (self', items) \<Rightarrow>
                         Inr (self', JObj (dict_set d (u ''items'')
                               (JArr (map snd (sort_reverse tuple_lt items))))))))
        | _ \<Rightarrow> Inl TypeError)"

text \<open>
  The same method on a store of objects: \<open>fb\<close> is the address of the dictionary, the
  assignment \<^verbatim>\<open>fb['items'] = ...\<close> changes the object at that address, and
  \<^verbatim>\<open>return fb\<close> returns the address.
\<close>

type_synonym addr = nat
type_synonym store = "addr \<Rightarrow> json"

definition filter_feedback_at ::
  "unicodedata \<Rightarrow> fuzzy \<Rightarrow> store \<Rightarrow> addr \<Rightarrow> ustring \<Rightarrow> error + (fuzzy \<times> store \<times> addr)" where
  "filter_feedback_at U self \<sigma> fb query =
    (case filter_feedback U self (\<sigma> fb) query of
       Inl e \<Rightarrow> Inl e
     | Inr (self', d) \<Rightarrow> Inr (self', \<sigma>(fb := d), fb))"

section \<open>The session cache\<close>

text \<open>
  What lies outside the process is a value of type \<open>world\<close>: the environment variables,
  the process id, the directories and files that exist, and the producer command. A path
  is a byte string and is its own identity (no links, no normalisation). The three
  \<open>no_\<close> sets say where the operating system refuses to create a directory, to open a
  file for writing, or to open a file for reading. \<open>check_output\<close> gives, for an argument
  vector, either the exception that \<^verbatim>\<open>subprocess.check_output\<close> raises
  (\<^verbatim>\<open>CalledProcessError\<close> for a non-zero exit, \<^verbatim>\<open>OSError\<close> when the command cannot be
  started) or the standard output; running the command leaves the cache directory alone.
  \<open>invocations\<close> counts the runs of the producer.
\<close>

record world =
  environ :: "string \<rightharpoonup> string"
  getpid :: nat
  dirs :: "string set"
  files :: "string \<rightharpoonup> string"
  no_mkdir :: "string set"
  no_write :: "string set"
  no_read :: "string set"
  check_output :: "string list \<Rightarrow> error + string"
  invocations :: nat

text \<open>
  The module constant \<^verbatim>\<open>SID\<close> (the name of the session variable, fixed when the module
  is loaded) and the library functions \<^verbatim>\<open>json.loads\<close> and \<^verbatim>\<open>json.dumps\<close>, which are
  not part of the repository: \<open>json_loads\<close> gives \<open>None\<close> where the library raises
  \<^verbatim>\<open>ValueError\<close>.
\<close>

record module =
  SID :: string
  json_loads :: "string \<Rightarrow> json option"
  json_dumps :: "json \<Rightarrow> string"

text \<open>An instance of class \<^verbatim>\<open>Cache\<close>; the last three fields are the private ones.\<close>

record cache =
  cmd :: "string list"
  cache_dir :: string
  cache_path_memo :: "string option"
  session_id_memo :: "string option"
  from_cache :: bool

text \<open>\<^verbatim>\<open>os.path.join\<close> of two components (\<^verbatim>\<open>posixpath\<close>).\<close>

definition path_join :: "string \<Rightarrow> string \<Rightarrow> string" where
  "path_join a b =
    (if b \<noteq> [] \<and> hd b = CHR ''/'' then b
     else if a = [] \<or> last a = CHR ''/'' then a @ b
     else a @ ''/'' @ b)"

text \<open>
  \<^verbatim>\<open>Cache(cmd)\<close>. \<^verbatim>\<open>CACHEDIR\<close> is the environment variable
  \<^verbatim>\<open>alfred_workflow_cache\<close>; when it is not set, \<^verbatim>\<open>os.path.join(None, '_fuzzy')\<close> raises.
\<close>

definition Cache_init :: "world \<Rightarrow> string list \<Rightarrow> error + cache" where
  "Cache_init w c =
    (case environ w ''alfred_workflow_cache'' of
       None \<Rightarrow> Inl AttributeError
     | Some d \<Rightarrow> Inr \<lparr>cmd = c, cache_dir = path_join d ''_fuzzy'', cache_path_memo = None,
                     session_id_memo = None, from_cache = False\<rparr>)"

text \<open>Truth value of an optional byte string: \<^verbatim>\<open>None\<close> and the empty string are false.\<close>

definition truthy :: "string option \<Rightarrow> bool" where
  "truthy s = (case s of None \<Rightarrow> False | Some v \<Rightarrow> v \<noteq> [])"

text \<open>\<^verbatim>\<open>str(n)\<close> for a process id: its decimal digits.\<close>

fun str_nat :: "nat \<Rightarrow> string" where
  "str_nat n =
    (if n < 10 then [char_of (48 + n)]
     else str_nat (n div 10) @ [char_of (48 + n mod 10)])"

declare str_nat.simps [simp del]

text \<open>The property \<^verbatim>\<open>session_id\<close>: the token and the instance after the call.\<close>

definition session_id :: "module \<Rightarrow> cache \<Rightarrow> world \<Rightarrow> string \<times> cache" where
  "session_id M self w =
    (case session_id_memo self of
       Some s \<Rightarrow>
         if s \<noteq> [] then (s, self)
         else (case environ w (SID M) of
                 Some sid \<Rightarrow>
                   if sid \<noteq> [] then (sid, self\<lparr>session_id_memo := Some sid, from_cache := True\<rparr>)
                   else (str_nat (getpid w), self\<lparr>session_id_memo := Some (str_nat (getpid w))\<rparr>)
               | None \<Rightarrow> (str_nat (getpid w), self\<lparr>session_id_memo := Some (str_nat (getpid w))\<rparr>))
     | None \<Rightarrow>
         (case environ w (SID M) of
            Some sid \<Rightarrow>
              if sid \<noteq> [] then (sid, self\<lparr>session_id_memo := Some sid, from_cache := True\<rparr>)
              else (str_nat (getpid w), self\<lparr>session_id_memo := Some (str_nat (getpid w))\<rparr>)
          | None \<Rightarrow> (str_nat (getpid w), self\<lparr>session_id_memo := Some (str_nat (getpid w))\<rparr>)))"

definition path_exists :: "world \<Rightarrow> string \<Rightarrow> bool" where
  "path_exists w p \<longleftrightarrow> p \<in> dirs w \<or> files w p \<noteq> None"

text \<open>\<^verbatim>\<open>os.makedirs(p, 0700)\<close>: \<^verbatim>\<open>OSError\<close>, or the directory exists afterwards.\<close>

definition makedirs :: "world \<Rightarrow> string \<Rightarrow> error + world" where
  "makedirs w p = (if p \<in> no_mkdir w then Inl OSError else Inr (w\<lparr>dirs := insert p (dirs w)\<rparr>))"

text \<open>
  The property \<^verbatim>\<open>cache_path\<close>: the path or the exception, the instance and the world after
  the call.
\<close>

definition cache_path :: "module \<Rightarrow> cache \<Rightarrow> world \<Rightarrow> (error + string) \<times> cache \<times> world" where
  "cache_path M self w =
    (if truthy (cache_path_memo self) then (Inr (the (cache_path_memo self)), self, w)
     else
       (case (if \<not> path_exists w (cache_dir self) then makedirs w (cache_dir self) else Inr w) of
          Inl e \<Rightarrow> (Inl e, self, w)
        | Inr w' \<Rightarrow>
           (let r = session_id M self w';
                p = path_join (cache_dir self) (fst r @ ''.json'')
            in (Inr p, (snd r)\<lparr>cache_path_memo := Some p\<rparr>, w'))))"

text \<open>\<^verbatim>\<open>check_output(self.cmd)\<close>, counted.\<close>

definition run_cmd :: "cache \<Rightarrow> world \<Rightarrow> (error + string) \<times> cache \<times> world" where
  "run_cmd self w = (check_output w (cmd self), self, w\<lparr>invocations := invocations w + 1\<rparr>)"

text \<open>
  The first statement of \<^verbatim>\<open>load\<close> after \<open>sid\<close> is bound: the text \<open>js\<close> comes from the
  cache file or from the command. \<^verbatim>\<open>and\<close> evaluates \<^verbatim>\<open>self.cache_path\<close> only when
  \<^verbatim>\<open>_from_cache\<close> is set. Opening a path that is a directory, or one that the system
  refuses to read, raises \<^verbatim>\<open>IOError\<close>.
\<close>

definition read_js :: "module \<Rightarrow> cache \<Rightarrow> world \<Rightarrow> (error + string) \<times> cache \<times> world" where
  "read_js M self w =
    (if from_cache self
     then (case cache_path M self w of
             (Inl e, self', w') \<Rightarrow> (Inl e, self', w')
           | (Inr p, self', w') \<Rightarrow>
               if path_exists w' p
               then (case files w' p of
                       None \<Rightarrow> (Inl IOError, self', w')
                     | Some js \<Rightarrow> if p \<in> no_read w' then (Inl IOError, self', w')
                                  else (Inr js, self', w'))
               else run_cmd self' w')
     else run_cmd self w)"

text \<open>
  The argument of the second \<^verbatim>\<open>log\<close> call, \<^verbatim>\<open>len(fb.get('items', []))\<close>: \<^verbatim>\<open>fb\<close> must have
  the method \<^verbatim>\<open>get\<close> and the items a length.
\<close>

definition count_items :: "json \<Rightarrow> error + nat" where
  "count_items fb =
    (case fb of
       JObj d \<Rightarrow>
         (case dict_get d (u ''items'') of
            None \<Rightarrow> Inr 0
          | Some (JArr xs) \<Rightarrow> Inr (length xs)
          | Some (JStr s) \<Rightarrow> Inr (length s)
          | Some (JObj e) \<Rightarrow> Inr (length e)
          | Some _ \<Rightarrow> Inl TypeError)
     | _ \<Rightarrow> Inl AttributeError)"

text \<open>
  The block under \<^verbatim>\<open># add session ID\<close>:
  \<^verbatim>\<open>fb['variables'][SID] = sid\<close> or \<^verbatim>\<open>fb['variables'] = {SID: sid}\<close>.
\<close>

definition add_session_id :: "module \<Rightarrow> json \<Rightarrow> string \<Rightarrow> error + json" where
  "add_session_id M fb sid =
    (case fb of
       JObj d \<Rightarrow>
         (case dict_get d (u ''variables'') of
            None \<Rightarrow> Inr (JObj (dict_set d (u ''variables'') (JObj [(u (SID M), JStr (u sid))])))
          | Some (JObj vs) \<Rightarrow>
              Inr (JObj (dict_set d (u ''variables'') (JObj (dict_set vs (u (SID M)) (JStr (u sid))))))
          | Some _ \<Rightarrow> Inl TypeError)
     | _ \<Rightarrow> Inl TypeError)"

text \<open>
  \<^verbatim>\<open>with open(self.cache_path, 'wb') as fp: json.dump(fb, fp)\<close>: the path is taken from the
  property, which may have to create the directory first.
\<close>

definition write_cache :: "module \<Rightarrow> cache \<Rightarrow> world \<Rightarrow> json \<Rightarrow> (error + unit) \<times> cache \<times> world" where
  "write_cache M self w fb =
    (case cache_path M self w of
       (Inl e, self', w') \<Rightarrow> (Inl e, self', w')
     | (Inr p, self', w') \<Rightarrow>
         if p \<in> no_write w' then (Inl IOError, self', w')
         else (Inr (), self', w'\<lparr>files := (files w')(p \<mapsto> json_dumps M fb)\<rparr>))"

text \<open>
  \<^verbatim>\<open>Cache.load\<close>: the document or the exception that ends the call, with the instance
  and the world as the call leaves them.
\<close>

definition load :: "module \<Rightarrow> cache \<Rightarrow> world \<Rightarrow> (error + json) \<times> cache \<times> world" where
  "load M self w =
    (let r = session_id M self w; sid = fst r
     in case read_js M (snd r) w of
          (Inl e, self1, w1) \<Rightarrow> (Inl e, self1, w1)
        | (Inr js, self1, w1) \<Rightarrow>
           (case json_loads M js of
              None \<Rightarrow> (Inl ValueError, self1, w1)
            | Some fb \<Rightarrow>
               (case count_items fb of
                  Inl e \<Rightarrow> (Inl e, self1, w1)
                | Inr n \<Rightarrow>
                   if \<not> from_cache self1
                   then (case add_session_id M fb sid of
                           Inl e \<Rightarrow> (Inl e, self1, w1)
                         | Inr fb' \<Rightarrow>
                            (case write_cache M self1 w1 fb' of
                               (Inl e, self2, w2) \<Rightarrow> (Inl e, self2, w2)
                             | (Inr x, self2, w2) \<Rightarrow> (Inr fb', self2, w2)))
                   else (Inr fb, self1, w1))))"

section \<open>Predicates used in the statements\<close>

text \<open>
  The memo of a \<^verbatim>\<open>Fuzzy\<close> instance is only ever written by \<^verbatim>\<open>match\<close>, which stores
  the result it has just computed. \<open>cache_ok\<close> says that every entry is such a result. It
  holds for a new instance and is kept by every call.
\<close>

definition cache_ok :: "unicodedata \<Rightarrow> fuzzy \<Rightarrow> bool" where
  "cache_ok U self \<longleftrightarrow>
     (\<forall>k r. match_cache self k = Some r \<longrightarrow> r = match_res U self (fst k) (snd k))"

text \<open>
  What the statements below use of the Unicode tables: on ASCII characters
  \<^verbatim>\<open>lower\<close> is the ASCII case mapping and the canonical decomposition is the character
  itself.
\<close>

definition ascii_case :: "unicodedata \<Rightarrow> bool" where
  "ascii_case U \<longleftrightarrow> (\<forall>c<128. lower U c = ascii_lower c \<and> upper U c = ascii_upper c)"

definition ascii_decomp :: "unicodedata \<Rightarrow> bool" where
  "ascii_decomp U \<longleftrightarrow> (\<forall>c<128. decomp U c = [c])"

text \<open>
  The text that \<^verbatim>\<open>filter_feedback\<close> scores for an item, and the result of scoring it.
  \<open>fold_mode\<close> is the value of the variable \<^verbatim>\<open>fold\<close>.
\<close>

definition terms_of :: "unicodedata \<Rightarrow> bool \<Rightarrow> json \<Rightarrow> ustring" where
  "terms_of U fold_mode it =
    (case get_terms it of
       Inr (JStr t) \<Rightarrow> if fold_mode then fold_diacritics U t else t
     | _ \<Rightarrow> [])"

definition item_res :: "unicodedata \<Rightarrow> fuzzy \<Rightarrow> ustring \<Rightarrow> json \<Rightarrow> bool \<times> int" where
  "item_res U self query it = match_res U self query (terms_of U (isascii U query) it)"

text \<open>\<open>precedes a b xs\<close>: there is an occurrence of \<open>a\<close> in \<open>xs\<close> with an occurrence of \<open>b\<close> after it.\<close>

fun precedes :: "'a \<Rightarrow> 'a \<Rightarrow> 'a list \<Rightarrow> bool" where
  "precedes a b [] = False"
| "precedes a b (x # xs) = ((x = a \<and> b \<in> set xs) \<or> precedes a b xs)"

text \<open>A candidate that has a title and nothing else, and a document of such candidates.\<close>

definition candidate :: "string \<Rightarrow> json" where
  "candidate t = JObj [(u ''title'', JStr (u t))]"

definition feedback :: "json list \<Rightarrow> json" where
  "feedback its = JObj [(u ''items'', JArr its)]"

text \<open>The candidates of a document, in the order in which the filter visits them.\<close>

definition items_of :: "json \<Rightarrow> json list" where
  "items_of fb =
    (case fb of
       JObj d \<Rightarrow>
         (case dict_get d (u ''items'') of
            Some v \<Rightarrow> (case py_iter v of Inr its \<Rightarrow> its | Inl e \<Rightarrow> [])
          | None \<Rightarrow> [])
     | _ \<Rightarrow> [])"

text \<open>
  A document as the producer contract describes it: a dictionary whose \<^verbatim>\<open>items\<close> are a
  list of dictionaries, each with a text under \<^verbatim>\<open>match\<close> or, without that key, under
  \<^verbatim>\<open>title\<close>.
\<close>

definition text_item :: "json \<Rightarrow> bool" where
  "text_item it = (case get_terms it of Inr (JStr t) \<Rightarrow> True | _ \<Rightarrow> False)"

definition well_formed :: "json \<Rightarrow> bool" where
  "well_formed fb =
    (case fb of
       JObj d \<Rightarrow>
         (case dict_get d (u ''items'') of
            Some (JArr its) \<Rightarrow> list_all text_item its
          | _ \<Rightarrow> False)
     | _ \<Rightarrow> False)"

definition ascii_text :: "ustring \<Rightarrow> bool" where
  "ascii_text s = list_all (\<lambda>c. c < 128) s"

text \<open>The scored survivors: the list \<open>items\<close> that \<^verbatim>\<open>filter_feedback\<close> hands to the sort.\<close>

definition scored :: "unicodedata \<Rightarrow> fuzzy \<Rightarrow> ustring \<Rightarrow> json list \<Rightarrow> (int \<times> json) list" where
  "scored U self query its =
     map (\<lambda>it. (snd (item_res U self query it), it))
       (filter (\<lambda>it. fst (item_res U self query it)) its)"

text \<open>
  A \<^verbatim>\<open>Cache\<close> instance on which no property has been read yet, as \<^verbatim>\<open>Cache(cmd)\<close>
  returns it.
\<close>

definition fresh :: "cache \<Rightarrow> bool" where
  "fresh c \<longleftrightarrow> session_id_memo c = None \<and> cache_path_memo c = None \<and> \<not> from_cache c"

text \<open>
  The session token supplied from outside, if any: the value of the session variable when
  it is set and not empty. With a token the session is in state Resume, without one in
  state New.
\<close>

definition token :: "module \<Rightarrow> world \<Rightarrow> string option" where
  "token M w =
    (case environ w (SID M) of
       None \<Rightarrow> None
     | Some s \<Rightarrow> if s \<noteq> [] then Some s else None)"

text \<open>The cache file of a token.\<close>

definition cache_file :: "cache \<Rightarrow> string \<Rightarrow> string" where
  "cache_file c tok = path_join (cache_dir c) (tok @ ''.json'')"

text \<open>The world after \<^verbatim>\<open>cache_path\<close> has made sure that the cache directory exists.\<close>

definition with_cache_dir :: "cache \<Rightarrow> world \<Rightarrow> world" where
  "with_cache_dir c w =
    (if path_exists w (cache_dir c) then w else w\<lparr>dirs := insert (cache_dir c) (dirs w)\<rparr>)"

text \<open>
  A module, an instance and a world for concrete runs. The stand-in for the JSON library
  knows three texts: a document with no items, the same document with the session
  variable of process 5, and a text that is not JSON.
\<close>

definition doc0 :: json where
  "doc0 = JObj [(u ''items'', JArr [])]"

definition doc5 :: json where
  "doc5 = JObj [(u ''items'', JArr []),
                (u ''variables'', JObj [(u ''fuzzy_session_id'', JStr (u ''5''))])]"

definition sample_loads :: "string \<Rightarrow> json option" where
  "sample_loads s =
    (if s = ''{items: []}'' then Some doc0
     else if s = ''{items: [], variables: {fuzzy_session_id: 5}}'' then Some doc5
     else None)"

definition sample_dumps :: "json \<Rightarrow> string" where
  "sample_dumps j =
    (if j = doc0 then ''{items: []}''
     else if j = doc5 then ''{items: [], variables: {fuzzy_session_id: 5}}''
     else ''?'')"

definition sample_module :: module where
  "sample_module = \<lparr>SID = ''fuzzy_session_id'', json_loads = sample_loads,
     json_dumps = sample_dumps\<rparr>"

definition sample_cache :: cache where
  "sample_cache = \<lparr>cmd = [''producer''], cache_dir = ''/cache/_fuzzy'',
     cache_path_memo = None, session_id_memo = None, from_cache = False\<rparr>"

definition sample_world :: world where
  "sample_world = \<lparr>environ = Map.empty, getpid = 5, dirs = {}, files = Map.empty,
     no_mkdir = {}, no_write = {}, no_read = {},
     check_output = (\<lambda>c. Inr ''{items: []}''), invocations = 0\<rparr>"

text \<open>
  Two more worlds: one in state Resume whose cache file is missing, and one in state
  Resume whose cache file exists and whose producer would fail.
\<close>

definition resume_world :: world where
  "resume_world = sample_world\<lparr>environ := [''fuzzy_session_id'' \<mapsto> ''77''],
     dirs := {''/cache/_fuzzy''}\<rparr>"

definition cached_world :: world where
  "cached_world = sample_world\<lparr>environ := [''fuzzy_session_id'' \<mapsto> ''5''],
     dirs := {''/cache/_fuzzy''},
     files := [''/cache/_fuzzy/5.json'' \<mapsto> ''{items: [], variables: {fuzzy_session_id: 5}}''],
     check_output := (\<lambda>c. Inl CalledProcessError)\<rparr>"

text \<open>
  A second stand-in for the JSON library. It also knows an object without entries, an empty
  list, an object whose items are a number and an object whose variables are a number.
\<close>

definition doc_vars5 :: json where
  "doc_vars5 = JObj [(u ''variables'', JObj [(u ''fuzzy_session_id'', JStr (u ''5''))])]"

definition sample_loads2 :: "string \<Rightarrow> json option" where
  "sample_loads2 s =
    (if s = ''{}'' then Some (JObj [])
     else if s = ''[]'' then Some (JArr [])
     else if s = ''{items: 3}'' then Some (JObj [(u ''items'', JInt 3)])
     else if s = ''{items: [], variables: 1}''
       then Some (JObj [(u ''items'', JArr []), (u ''variables'', JInt 1)])
     else sample_loads s)"

definition sample_dumps2 :: "json \<Rightarrow> string" where
  "sample_dumps2 j =
    (if j = doc_vars5 then ''{variables: {fuzzy_session_id: 5}}'' else sample_dumps j)"

definition sample_module2 :: module where
  "sample_module2 = \<lparr>SID = ''fuzzy_session_id'', json_loads = sample_loads2,
     json_dumps = sample_dumps2\<rparr>"

section \<open>The memo of the matcher\<close>

lemma on_match_cache [simp]:
  "on_match U (self\<lparr>match_cache := c\<rparr>) ch nm st = on_match U self ch nm st"
  by (simp add: on_match_def add_lead_penalty_def new_score_at_def update_best_def Let_def)

lemma on_miss_cache [simp]: "on_miss (self\<lparr>match_cache := c\<rparr>) st = on_miss self st"
  by (simp add: on_miss_def)

lemma match_step_cache [simp]:
  "match_step U (self\<lparr>match_cache := c\<rparr>) query ch st = match_step U self query ch st"
  by (auto simp: match_step_def Let_def)

lemma match_loop_cache [simp]:
  "match_loop U (self\<lparr>match_cache := c\<rparr>) query terms st = match_loop U self query terms st"
  by (induction terms arbitrary: st) simp_all

lemma match_res_cache [simp]:
  "match_res U (self\<lparr>match_cache := c\<rparr>) query terms = match_res U self query terms"
  by (simp add: match_res_def)

lemma match_fst:
  "cache_ok U self \<Longrightarrow> fst (match U self query terms) = match_res U self query terms"
  by (auto simp: match_def cache_ok_def Let_def split: option.splits)

lemma match_snd_cache_ok:
  "cache_ok U self \<Longrightarrow> cache_ok U (snd (match U self query terms))"
  by (auto simp: match_def cache_ok_def Let_def split: option.splits)

lemma match_snd_config:
  "\<exists>c. snd (match U self query terms) = self\<lparr>match_cache := c\<rparr>"
  by (cases "match_cache self (query, terms)")
    (auto simp: match_def Let_def intro: exI[of _ "match_cache self"])

lemma cache_ok_default: "cache_ok U default_fuzzy"
  by (simp add: cache_ok_def default_fuzzy_def)

lemma ascii_case_sample: "ascii_case sample_tables"
  by (simp add: ascii_case_def sample_tables_def)

section \<open>The query cursor\<close>

lemma match_loop_append:
  "match_loop U self query (xs @ ys) st =
     match_loop U self query ys (match_loop U self query xs st)"
  by (induction xs arbitrary: st) simp_all

lemma q_idx_on_match:
  "q_idx (on_match U self c nm st) = (if nm then q_idx st + 1 else q_idx st)"
  by (simp add: on_match_def add_lead_penalty_def update_best_def Let_def)

lemma q_idx_step:
  "q_idx (match_step U self query c st) =
     (if q_idx st \<noteq> length query \<and> lower U (query ! q_idx st) = lower U c
      then q_idx st + 1 else q_idx st)"
  by (auto simp add: match_step_def Let_def q_idx_on_match on_miss_def commit_best_def)

text \<open>
  The cursor never passes the end of the query, so \<^verbatim>\<open>query[q_idx]\<close> is always in range.
\<close>

lemma q_idx_loop_le:
  "q_idx st \<le> length query \<Longrightarrow> q_idx (match_loop U self query terms st) \<le> length query"
proof (induction terms arbitrary: st)
  case Nil
  then show ?case by simp
next
  case (Cons c rest)
  from Cons.prems have "q_idx (match_step U self query c st) \<le> length query"
    by (simp add: q_idx_step)
  from Cons.IH[OF this] show ?case by simp
qed

text \<open>
  The cursor advances greedily; it reaches the end exactly when what is left of the query
  is a subsequence of what is left of the terms, both lower-cased.
\<close>

lemma q_idx_loop_subseq:
  "q_idx st \<le> length query \<Longrightarrow>
   q_idx (match_loop U self query terms st) = length query \<longleftrightarrow>
   subseq (map (lower U) (drop (q_idx st) query)) (map (lower U) terms)"
proof (induction terms arbitrary: st)
  case Nil
  show ?case
  proof
    assume "q_idx (match_loop U self query [] st) = length query"
    then show "subseq (map (lower U) (drop (q_idx st) query)) (map (lower U) [])" by simp
  next
    assume "subseq (map (lower U) (drop (q_idx st) query)) (map (lower U) [])"
    then have "map (lower U) (drop (q_idx st) query) = []" by (auto dest: list_emb_Nil2)
    with Nil show "q_idx (match_loop U self query [] st) = length query" by simp
  qed
next
  case (Cons c rest)
  show ?case
  proof (cases "q_idx st = length query")
    case True
    then have "q_idx (match_step U self query c st) = length query"
      by (simp add: q_idx_step)
    with Cons.IH[of "match_step U self query c st"] True show ?thesis by simp
  next
    case False
    with Cons.prems have lt: "q_idx st < length query" by simp
    then have dr: "drop (q_idx st) query = query ! q_idx st # drop (Suc (q_idx st)) query"
      by (simp add: Cons_nth_drop_Suc)
    show ?thesis
    proof (cases "lower U (query ! q_idx st) = lower U c")
      case True
      then have q: "q_idx (match_step U self query c st) = Suc (q_idx st)"
        using False by (simp add: q_idx_step)
      with lt have "q_idx (match_step U self query c st) \<le> length query" by simp
      from Cons.IH[OF this] q dr True show ?thesis by simp
    next
      case neq: False
      then have q: "q_idx (match_step U self query c st) = q_idx st"
        by (simp add: q_idx_step)
      with lt have "q_idx (match_step U self query c st) \<le> length query" by simp
      from Cons.IH[OF this] q dr neq show ?thesis by simp
    qed
  qed
qed

lemma q_idx_finish [simp]: "q_idx (match_finish st) = q_idx st"
  by (simp add: match_finish_def)

lemma match_res_matched:
  "fst (match_res U self query terms) \<longleftrightarrow>
     subseq (map (lower U) query) (map (lower U) terms)"
  using q_idx_loop_subseq[of scan_init query U self terms]
  by (simp add: match_res_def Let_def scan_init_def)

text \<open>
  C4. For every configuration, query and text, the matched flag of \<^verbatim>\<open>match(query, text)\<close>
  is true if and only if the characters of the query occur in the text in the same order,
  not necessarily next to each other, where two characters are the same when their
  lower-case forms are equal. In particular, with the ASCII case mapping,
  \<^verbatim>\<open>match("abc", "ABC")\<close> is matched and \<^verbatim>\<open>match("ba", "ab")\<close> is not.
\<close>

theorem match_iff_subsequence:
  assumes "cache_ok U self"
  shows "(fst (fst (match U self query terms)) \<longleftrightarrow>
            subseq (map (lower U) query) (map (lower U) terms)) \<and>
         (ascii_case U \<longrightarrow>
            fst (fst (match U self (u ''abc'') (u ''ABC''))) \<and>
            \<not> fst (fst (match U self (u ''ba'') (u ''ab''))))"
proof -
  have m: "fst (fst (match U self q t)) \<longleftrightarrow> subseq (map (lower U) q) (map (lower U) t)" for q t
    by (simp add: match_fst[OF assms] match_res_matched)
  have "fst (fst (match U self (u ''abc'') (u ''ABC'')))" if "ascii_case U"
    using that unfolding m by (simp add: ascii_case_def u_def ascii_lower_def)
  moreover have "\<not> fst (fst (match U self (u ''ba'') (u ''ab'')))" if "ascii_case U"
    using that unfolding m by (simp add: ascii_case_def u_def ascii_lower_def)
  ultimately show ?thesis using m by blast
qed

theorem match_iff_subsequence_witness:
  "cache_ok sample_tables default_fuzzy \<and> ascii_case sample_tables \<and>
   fst (fst (match sample_tables default_fuzzy (u ''fx'') (u ''Firefox''))) \<and>
   subseq (map (lower sample_tables) (u ''fx'')) (map (lower sample_tables) (u ''Firefox'')) \<and>
   fst (fst (match sample_tables default_fuzzy (u ''abc'') (u ''ABC''))) \<and>
   \<not> fst (fst (match sample_tables default_fuzzy (u ''ba'') (u ''ab'')))"
proof -
  have "fst (fst (match sample_tables default_fuzzy (u ''fx'') (u ''Firefox'')))"
    by code_simp
  with match_iff_subsequence[OF cache_ok_default, of sample_tables "u ''fx''" "u ''Firefox''"]
    cache_ok_default[of sample_tables] ascii_case_sample
  show ?thesis by simp
qed

section \<open>The empty query\<close>

lemma empty_query_step:
  "best_letter st = None \<Longrightarrow> q_idx st = 0 \<Longrightarrow>
   best_letter (match_step U self [] c st) = None \<and>
   q_idx (match_step U self [] c st) = 0 \<and>
   score (match_step U self [] c st) = score st + unmatched_penalty self"
  by (simp add: match_step_def Let_def on_miss_def)

lemma empty_query_loop:
  "best_letter st = None \<Longrightarrow> q_idx st = 0 \<Longrightarrow>
   best_letter (match_loop U self [] terms st) = None \<and>
   q_idx (match_loop U self [] terms st) = 0 \<and>
   score (match_loop U self [] terms st) =
     score st + int (length terms) * unmatched_penalty self"
proof (induction terms arbitrary: st)
  case Nil
  then show ?case by simp
next
  case (Cons c rest)
  from empty_query_step[OF Cons.prems, of U self c]
  have a: "best_letter (match_step U self [] c st) = None"
    and b: "q_idx (match_step U self [] c st) = 0"
    and c: "score (match_step U self [] c st) = score st + unmatched_penalty self"
    by simp_all
  from Cons.IH[OF a b] c show ?case by (simp add: algebra_simps)
qed

lemma match_res_empty_query:
  "match_res U self [] terms = (True, int (length terms) * unmatched_penalty self)"
  using empty_query_loop[of scan_init U self terms]
  by (simp add: match_res_def Let_def match_finish_def scan_init_def)

text \<open>
  C5. For every text \<open>T\<close>, \<^verbatim>\<open>match("", T)\<close> returns matched = true and a score of
  \<open>len(T)\<close> times the unmatched-character penalty; with the default penalty of \<open>-1\<close> the
  score is \<open>-len(T)\<close>.
\<close>

theorem match_empty_query:
  assumes "cache_ok U self"
  shows "fst (match U self [] T) = (True, int (length T) * unmatched_penalty self) \<and>
         (unmatched_penalty self = - 1 \<longrightarrow> fst (match U self [] T) = (True, - int (length T)))"
  by (simp add: match_fst[OF assms] match_res_empty_query)

theorem match_empty_query_witness:
  "cache_ok sample_tables default_fuzzy \<and> unmatched_penalty default_fuzzy = - 1 \<and>
   fst (match sample_tables default_fuzzy [] (u ''Safari'')) = (True, - 6)"
  using match_empty_query[OF cache_ok_default, of sample_tables "u ''Safari''"]
    cache_ok_default[of sample_tables]
  by (simp add: default_fuzzy_def u_def)

section \<open>A text matched against itself\<close>

lemma on_match_fresh:
  assumes "best_letter st = None" "best_letter_score st = 0"
    and "0 \<le> adj_bonus self" "0 \<le> sep_bonus self" "0 \<le> camel_bonus self"
  shows "q_idx (on_match U self c True st) = q_idx st + 1"
    and "best_letter (on_match U self c True st) = Some c"
    and "best_lower (on_match U self c True st) = Some (lower U c)"
proof -
  have "0 \<le> new_score_at U self c (add_lead_penalty self st)"
    using assms(3-5) by (simp add: new_score_at_def)
  moreover have "best_letter_score (add_lead_penalty self st) = 0"
    "best_letter (add_lead_penalty self st) = None"
    using assms(1,2) by (simp_all add: add_lead_penalty_def)
  ultimately show "q_idx (on_match U self c True st) = q_idx st + 1"
    and "best_letter (on_match U self c True st) = Some c"
    and "best_lower (on_match U self c True st) = Some (lower U c)"
    by (simp_all add: on_match_def Let_def update_best_def add_lead_penalty_def)
qed

lemma self_step:
  assumes "q_idx st < length T" "T ! q_idx st = c"
    and "best_letter st = None \<longrightarrow> best_letter_score st = 0"
    and "0 \<le> adj_bonus self" "0 \<le> sep_bonus self" "0 \<le> camel_bonus self"
  shows "q_idx (match_step U self T c st) = q_idx st + 1"
    and "best_letter (match_step U self T c st) = Some c"
    and "best_lower (match_step U self T c st) = Some (lower U c)"
proof -
  define st1 where "st1 = (if best_letter st \<noteq> None then commit_best st else st)"
  have st1: "best_letter st1 = None" "best_letter_score st1 = 0" "q_idx st1 = q_idx st"
    using assms(3) by (auto simp: st1_def commit_best_def)
  have step: "match_step U self T c st =
      (on_match U self c True st1)\<lparr>prev_lower := (c = lower U c \<and> lower U c \<noteq> upper U c),
         prev_sep := (c \<in> set (separators self)),
         t_idx := t_idx (on_match U self c True st1) + 1\<rparr>"
    using assms(1,2) by (auto simp: match_step_def Let_def st1_def)
  from on_match_fresh[OF st1(1,2) assms(4-6), of U c] st1(3)
  show "q_idx (match_step U self T c st) = q_idx st + 1"
    and "best_letter (match_step U self T c st) = Some c"
    and "best_lower (match_step U self T c st) = Some (lower U c)"
    by (simp_all add: step)
qed

lemma self_loop:
  assumes "0 \<le> adj_bonus self" "0 \<le> sep_bonus self" "0 \<le> camel_bonus self"
  shows "T = pre @ xs \<Longrightarrow> q_idx st = length pre \<Longrightarrow>
     (best_letter st = None \<longrightarrow> best_letter_score st = 0) \<Longrightarrow>
     q_idx (match_loop U self T xs st) = length T \<and>
     (xs \<noteq> [] \<longrightarrow> best_letter (match_loop U self T xs st) \<noteq> None \<and>
        best_lower (match_loop U self T xs st) = Some (lower U (last xs)))"
proof (induction xs arbitrary: pre st)
  case Nil
  then show ?case by simp
next
  case (Cons c rest)
  let ?st = "match_step U self T c st"
  from Cons.prems have lt: "q_idx st < length T" and nth: "T ! q_idx st = c" by simp_all
  note s = self_step[OF lt nth Cons.prems(3) assms, of U]
  have T: "T = (pre @ [c]) @ rest" using Cons.prems(1) by simp
  have q: "q_idx ?st = length (pre @ [c])" using s(1) Cons.prems(2) by simp
  have b: "best_letter ?st = None \<longrightarrow> best_letter_score ?st = 0" using s(2) by simp
  from Cons.IH[OF T q b] s(2,3) show ?case by (cases rest) simp_all
qed

lemma miss_step:
  assumes "q_idx st = length query"
    and "best_letter st = None \<or> best_lower st \<noteq> Some (lower U c)"
  shows "match_step U self query c st =
      (on_miss self st)\<lparr>prev_lower := (c = lower U c \<and> lower U c \<noteq> upper U c),
         prev_sep := (c \<in> set (separators self)),
         t_idx := t_idx (on_miss self st) + 1\<rparr>"
  using assms by (auto simp: match_step_def Let_def)

lemma finish_miss_step:
  assumes "q_idx st = length query"
    and "best_letter st = None \<or> best_lower st \<noteq> Some (lower U c)"
  shows "score (match_finish (match_step U self query c st)) =
           score (match_finish st) + unmatched_penalty self"
    and "q_idx (match_finish (match_step U self query c st)) = length query"
  using assms(1) by (simp_all add: miss_step[OF assms] match_finish_def on_miss_def)

lemma match_res_self_append:
  assumes "0 \<le> adj_bonus self" "0 \<le> sep_bonus self" "0 \<le> camel_bonus self"
    and "T = [] \<or> lower U (last T) \<noteq> lower U x"
  shows "fst (match_res U self T T)"
    and "match_res U self T (T @ [x]) =
           (True, snd (match_res U self T T) + unmatched_penalty self)"
proof -
  let ?st = "match_loop U self T T scan_init"
  have inv: "q_idx ?st = length T \<and>
     (T \<noteq> [] \<longrightarrow> best_letter ?st \<noteq> None \<and> best_lower ?st = Some (lower U (last T)))"
    by (rule self_loop[OF assms(1-3), of T "[]"]) (simp_all add: scan_init_def)
  then show "fst (match_res U self T T)" by (simp add: match_res_def Let_def)
  have none: "best_letter ?st = None \<or> best_lower ?st \<noteq> Some (lower U x)"
  proof (cases "T = []")
    case True
    then show ?thesis by (simp add: scan_init_def)
  next
    case False
    with inv assms(4) show ?thesis by simp
  qed
  from inv have q: "q_idx ?st = length T" by simp
  from finish_miss_step[OF q none, of self]
  show "match_res U self T (T @ [x]) =
          (True, snd (match_res U self T T) + unmatched_penalty self)"
    by (simp add: match_res_def Let_def match_loop_append)
qed

text \<open>
  C6, as the specification states it: for every text \<open>T\<close>, under the default
  configuration, \<^verbatim>\<open>match(T, T)\<close> has a score strictly greater than
  \<^verbatim>\<open>match(T, T + "x")\<close>. This fails for \<open>T = "x"\<close>: the appended \<open>x\<close> is a rematch of the
  pending best letter, it is not better than the pending one and costs nothing, and
  both scores are 10.
\<close>

theorem match_self_append_counterexample:
  "\<not> snd (fst (match sample_tables default_fuzzy (u ''x'') (u ''x''))) >
     snd (fst (match sample_tables default_fuzzy (u ''x'') (u ''x'' @ u ''x'')))"
  by code_simp

text \<open>
  C6, amended. For every configuration whose three bonuses are not negative and whose
  unmatched-character penalty is negative (the default one is such), and every text \<open>T\<close>
  that is empty or whose last character differs from the appended character \<open>x\<close> when both
  are lower-cased: \<^verbatim>\<open>match(T, T)\<close> is matched, and its score is greater than the score of
  \<^verbatim>\<open>match(T, T + x)\<close>, by exactly the size of the penalty.
\<close>

theorem match_self_append:
  assumes "cache_ok U self"
    and "0 \<le> adj_bonus self" "0 \<le> sep_bonus self" "0 \<le> camel_bonus self"
    and "unmatched_penalty self < 0"
    and "T = [] \<or> lower U (last T) \<noteq> lower U x"
  shows "fst (fst (match U self T T)) \<and>
         snd (fst (match U self T T)) > snd (fst (match U self T (T @ [x]))) \<and>
         snd (fst (match U self T (T @ [x]))) =
           snd (fst (match U self T T)) + unmatched_penalty self"
  using match_res_self_append[OF assms(2-4,6)] assms(5)
  by (simp add: match_fst[OF assms(1)])

theorem match_self_append_witness:
  "cache_ok sample_tables default_fuzzy \<and>
   0 \<le> adj_bonus default_fuzzy \<and> 0 \<le> sep_bonus default_fuzzy \<and>
   0 \<le> camel_bonus default_fuzzy \<and> unmatched_penalty default_fuzzy < 0 \<and>
   lower sample_tables (last (u ''Safari'')) \<noteq> lower sample_tables 120 \<and>
   fst (fst (match sample_tables default_fuzzy (u ''Safari'') (u ''Safari''))) \<and>
   snd (fst (match sample_tables default_fuzzy (u ''Safari'') (u ''Safari''))) >
     snd (fst (match sample_tables default_fuzzy (u ''Safari'') (u ''Safari'' @ [120])))"
proof -
  have h: "0 \<le> adj_bonus default_fuzzy" "0 \<le> sep_bonus default_fuzzy"
    "0 \<le> camel_bonus default_fuzzy" "unmatched_penalty default_fuzzy < 0"
    by (simp_all add: default_fuzzy_def)
  have l: "u ''Safari'' = [] \<or> lower sample_tables (last (u ''Safari'')) \<noteq> lower sample_tables 120"
    by (simp add: u_def sample_tables_def ascii_lower_def)
  from match_self_append[OF cache_ok_default h l] h l cache_ok_default[of sample_tables]
  show ?thesis by (simp add: u_def)
qed

section \<open>Dictionaries and the sort\<close>

lemma dict_get_set: "dict_get (dict_set d k v) k' = (if k' = k then Some v else dict_get d k')"
  by (induction d k v rule: dict_set.induct) (auto simp: dict_get_def)

lemma set_insert_desc [simp]: "set (insert_desc lt x ys) = insert x (set ys)"
  by (induction ys) auto

lemma mset_insert_desc [simp]: "mset (insert_desc lt x ys) = add_mset x (mset ys)"
  by (induction ys) auto

lemma mset_sort_reverse [simp]: "mset (sort_reverse lt xs) = mset xs"
  by (induction xs) (simp_all add: sort_reverse_def)

lemma set_sort_reverse [simp]: "set (sort_reverse lt xs) = set xs"
  by (induction xs) (simp_all add: sort_reverse_def)

lemma sort_reverse_Cons: "sort_reverse lt (x # xs) = insert_desc lt x (sort_reverse lt xs)"
  by (simp add: sort_reverse_def)

lemma sorted_insert_desc:
  assumes "\<And>a b. lt a b \<Longrightarrow> key a \<le> key b" "\<And>a b. \<not> lt a b \<Longrightarrow> key b \<le> (key a :: int)"
  shows "sorted_wrt (\<lambda>a b. key b \<le> key a) ys \<Longrightarrow> sorted_wrt (\<lambda>a b. key b \<le> key a) (insert_desc lt x ys)"
proof (induction ys)
  case Nil
  then show ?case by simp
next
  case (Cons y ys)
  show ?case
  proof (cases "lt x y")
    case True
    with Cons assms(1)[OF True] show ?thesis by auto
  next
    case False
    from assms(2)[OF False] Cons.prems show ?thesis using False by fastforce
  qed
qed

lemma sorted_sort_reverse:
  assumes "\<And>a b. lt a b \<Longrightarrow> key a \<le> key b" "\<And>a b. \<not> lt a b \<Longrightarrow> key b \<le> (key a :: int)"
  shows "sorted_wrt (\<lambda>a b. key b \<le> key a) (sort_reverse lt xs)"
  by (induction xs) (simp_all add: sort_reverse_def sorted_insert_desc[OF assms])

lemma tuple_lt_fst: "tuple_lt a b \<Longrightarrow> fst a \<le> fst b" "\<not> tuple_lt a b \<Longrightarrow> fst b \<le> fst a"
  by (auto simp: tuple_lt_def split: if_splits)

lemma precedes_set: "precedes a b xs \<Longrightarrow> a \<in> set xs \<and> b \<in> set xs"
  by (induction xs) auto

lemma precedes_insert: "precedes a b ys \<Longrightarrow> precedes a b (insert_desc lt x ys)"
  by (induction ys) auto

lemma precedes_insert_self: "b \<in> set ys \<Longrightarrow> \<not> lt a b \<Longrightarrow> precedes a b (insert_desc lt a ys)"
  by (induction ys) auto

lemma precedes_sort_reverse:
  "precedes a b xs \<Longrightarrow> \<not> lt a b \<Longrightarrow> precedes a b (sort_reverse lt xs)"
proof (induction xs)
  case Nil
  then show ?case by simp
next
  case (Cons x xs)
  from Cons.prems(1) consider "x = a" "b \<in> set xs" | "precedes a b xs" by auto
  then show ?case
  proof cases
    case 1
    then show ?thesis
      by (simp add: sort_reverse_Cons precedes_insert_self Cons.prems(2))
  next
    case 2
    then show ?thesis
      by (simp add: sort_reverse_Cons precedes_insert Cons.IH Cons.prems(2))
  qed
qed

lemma precedes_map: "precedes a b xs \<Longrightarrow> precedes (f a) (f b) (map f xs)"
  by (induction xs) auto

lemma precedes_filter: "precedes a b xs \<Longrightarrow> P a \<Longrightarrow> P b \<Longrightarrow> precedes a b (filter P xs)"
  by (induction xs) auto

section \<open>The loop of the filter\<close>

lemma terms_of_text: "get_terms it = Inr (JStr t) \<Longrightarrow>
   terms_of U fm it = (if fm then fold_diacritics U t else t)"
  by (simp add: terms_of_def)

lemma filter_loop_spec:
  assumes "cache_ok U self"
  shows "filter_loop U self fm q its acc = Inr (self', items) \<Longrightarrow>
     items = acc @ map (\<lambda>it. (snd (match_res U self q (terms_of U fm it)), it))
                     (filter (\<lambda>it. fst (match_res U self q (terms_of U fm it))) its) \<and>
     cache_ok U self' \<and> (\<exists>c. self' = self\<lparr>match_cache := c\<rparr>)"
  using assms
proof (induction its arbitrary: self acc)
  case Nil
  then show ?case by (auto intro: exI[of _ "match_cache self"])
next
  case (Cons it rest)
  from Cons.prems(1) obtain t where t: "get_terms it = Inr (JStr t)"
    by (auto split: sum.splits json.splits)
  let ?terms = "if fm then fold_diacritics U t else t"
  let ?r = "match U self q ?terms"
  have tt: "terms_of U fm it = ?terms" by (rule terms_of_text[OF t])
  have r1: "fst ?r = match_res U self q ?terms" by (rule match_fst[OF Cons.prems(2)])
  have ok: "cache_ok U (snd ?r)" by (rule match_snd_cache_ok[OF Cons.prems(2)])
  obtain c where c: "snd ?r = self\<lparr>match_cache := c\<rparr>" using match_snd_config by blast
  have same: "match_res U (snd ?r) q' t' = match_res U self q' t'" for q' t'
    by (simp add: c)
  show ?case
  proof (cases "fst (match_res U self q ?terms)")
    case True
    with Cons.prems(1) t r1
    have "filter_loop U (snd ?r) fm q rest (acc @ [(snd (match_res U self q ?terms), it)])
            = Inr (self', items)"
      by (simp add: Let_def)
    from Cons.IH[OF this ok] True tt c show ?thesis by (auto simp: same)
  next
    case False
    with Cons.prems(1) t r1
    have "filter_loop U (snd ?r) fm q rest acc = Inr (self', items)"
      by (simp add: Let_def)
    from Cons.IH[OF this ok] False tt c show ?thesis by (auto simp: same)
  qed
qed

lemma filter_loop_returns:
  "list_all text_item its \<Longrightarrow> \<exists>self' items. filter_loop U self fm q its acc = Inr (self', items)"
proof (induction its arbitrary: self acc)
  case Nil
  then show ?case by simp
next
  case (Cons it rest)
  from Cons.prems obtain t where t: "get_terms it = Inr (JStr t)"
    by (auto simp: text_item_def split: sum.splits json.splits)
  from Cons.prems have "list_all text_item rest" by simp
  from Cons.IH[OF this] t show ?case by (simp add: Let_def)
qed

lemma filter_loop_subset:
  "filter_loop U self fm q its acc = Inr (self', items) \<Longrightarrow>
     set (map snd items) \<subseteq> set (map snd acc) \<union> set its"
proof (induction its arbitrary: self acc)
  case Nil
  then show ?case by auto
next
  case (Cons it rest)
  from Cons.prems obtain t where t: "get_terms it = Inr (JStr t)"
    by (auto split: sum.splits json.splits)
  let ?r = "match U self q (if fm then fold_diacritics U t else t)"
  show ?case
  proof (cases "fst (fst ?r)")
    case True
    with Cons.prems t
    have "filter_loop U (snd ?r) fm q rest (acc @ [(snd (fst ?r), it)]) = Inr (self', items)"
      by (simp add: Let_def)
    from Cons.IH[OF this] show ?thesis by auto
  next
    case False
    with Cons.prems t
    have "filter_loop U (snd ?r) fm q rest acc = Inr (self', items)"
      by (simp add: Let_def)
    from Cons.IH[OF this] show ?thesis by auto
  qed
qed

lemma filter_feedback_spec:
  assumes "cache_ok U self" and "filter_feedback U self fb query = Inr (self', fb')"
  shows "\<exists>d v. fb = JObj d \<and> dict_get d (u ''items'') = Some v \<and>
     py_iter v = Inr (items_of fb) \<and>
     fb' = JObj (dict_set d (u ''items'')
             (JArr (map snd (sort_reverse tuple_lt (scored U self query (items_of fb)))))) \<and>
     cache_ok U self'"
proof -
  from assms(2) obtain d where d: "fb = JObj d"
    by (cases fb) (simp_all add: filter_feedback_def)
  from assms(2) d obtain v where v: "dict_get d (u ''items'') = Some v"
    by (auto simp: filter_feedback_def split: option.splits)
  from assms(2) d v obtain its where its: "py_iter v = Inr its"
    by (auto simp: filter_feedback_def split: sum.splits)
  have io: "items_of fb = its" by (simp add: items_of_def d v its)
  from assms(2) d v its obtain items where
    l: "filter_loop U self (isascii U query) query its [] = Inr (self', items)"
    and f: "fb' = JObj (dict_set d (u ''items'') (JArr (map snd (sort_reverse tuple_lt items))))"
    by (auto simp: filter_feedback_def split: sum.splits)
  from filter_loop_spec[OF assms(1) l]
  have "items = scored U self query its" and "cache_ok U self'"
    by (simp_all add: scored_def item_res_def)
  with d v its io f show ?thesis by simp
qed

lemma well_formedD:
  assumes "well_formed fb"
  shows "\<exists>d its. fb = JObj d \<and> dict_get d (u ''items'') = Some (JArr its) \<and>
           list_all text_item its"
proof (cases fb)
  case (JObj d)
  show ?thesis
  proof (cases "dict_get d (u ''items'')")
    case None
    with assms JObj show ?thesis by (simp add: well_formed_def)
  next
    case (Some v)
    with assms JObj show ?thesis by (cases v) (simp_all add: well_formed_def)
  qed
qed (use assms in \<open>simp_all add: well_formed_def\<close>)

lemma filter_feedback_returns:
  assumes "well_formed fb"
  shows "\<exists>self' fb'. filter_feedback U self fb query = Inr (self', fb')"
proof -
  from well_formedD[OF assms] obtain d its where d: "fb = JObj d"
    "dict_get d (u ''items'') = Some (JArr its)" "list_all text_item its"
    by blast
  from filter_loop_returns[OF d(3), of U self "isascii U query" query "[]"] d(1,2)
  show ?thesis by (auto simp: filter_feedback_def py_iter_def)
qed

lemma items_of_result:
  "items_of (JObj (dict_set d (u ''items'') (JArr out))) = out"
  by (simp add: items_of_def dict_get_set py_iter_def)

section \<open>The ordering of Python 2 values is a total preorder\<close>

text \<open>
  \<open>py_cmp\<close> is antisymmetric in sign and \<open>py_cmp a b \<le> 0\<close> is transitive, so the pairs
  \<open>(score, item)\<close> are totally preordered and the stable descending arrangement that
  \<open>sort_reverse\<close> computes is the only one.
\<close>

lemma cmp_ustring_anti: "cmp_ustring b a = - cmp_ustring a b"
  by (induction a b rule: cmp_ustring.induct) auto

lemma cmp_ustring_le_trans:
  "cmp_ustring a b \<le> 0 \<Longrightarrow> cmp_ustring b c \<le> 0 \<Longrightarrow> cmp_ustring a c \<le> 0"
proof (induction a arbitrary: b c)
  case Nil
  then show ?case by (cases c) auto
next
  case (Cons x xs)
  then show ?case
    by (cases b; cases c) (auto split: if_splits)
qed

lemma py_cmp_anti:
  "py_cmp b a = - py_cmp a b"
  "py_cmp_list ys xs = - py_cmp_list xs ys"
  "py_cmp_items e d = - py_cmp_items d e"
    apply (induction a b and xs ys and d e rule: py_cmp_py_cmp_list_py_cmp_items.induct)
                      apply (simp_all add: cmp_int_def)
    apply (rule cmp_ustring_anti)
   apply (case_tac e; simp)
  subgoal for kv d kv' e
    using cmp_ustring_anti[of "fst kv'" "fst kv"] by auto
  done

lemma py_cmp_rank_lt: "type_rank a < type_rank b \<Longrightarrow> py_cmp a b = - 1"
  by (cases a; cases b) simp_all

lemma py_cmp_rank_gt: "type_rank b < type_rank a \<Longrightarrow> py_cmp a b = 1"
  by (cases a; cases b) simp_all

lemma py_cmp_num:
  "type_rank a \<le> 1 \<Longrightarrow> type_rank b = type_rank a \<Longrightarrow>
     py_cmp a b = cmp_int (num_val a) (num_val b)"
  by (cases a; cases b) simp_all

lemma py_cmp_le_rank: "py_cmp a b \<le> 0 \<Longrightarrow> type_rank a \<le> type_rank b"
  using py_cmp_rank_gt[of b a] by (cases "type_rank b < type_rank a") simp_all

lemma rank_cases:
  "type_rank a \<le> 1 \<or> (\<exists>d. a = JObj d) \<or> (\<exists>xs. a = JArr xs) \<or> (\<exists>s. a = JStr s)"
  by (cases a) simp_all

lemma size_in_JArr: "x \<in> set xs \<Longrightarrow> size x < size (JArr xs)"
  by (induction xs) auto

lemma size_in_JObj: "kv \<in> set d \<Longrightarrow> size (snd kv) < size (JObj d)"
  by (induction d) auto

lemma py_cmp_list_le_trans:
  "\<forall>x\<in>set xs. \<forall>y\<in>set ys. \<forall>z\<in>set zs.
      (py_cmp x y \<le> 0 \<and> py_cmp y z \<le> 0 \<longrightarrow> py_cmp x z \<le> 0) \<and>
      (py_cmp z x \<le> 0 \<and> py_cmp x y \<le> 0 \<longrightarrow> py_cmp z y \<le> 0) \<and>
      (py_cmp y z \<le> 0 \<and> py_cmp z x \<le> 0 \<longrightarrow> py_cmp y x \<le> 0) \<Longrightarrow>
   py_cmp_list xs ys \<le> 0 \<Longrightarrow> py_cmp_list ys zs \<le> 0 \<Longrightarrow> py_cmp_list xs zs \<le> 0"
proof (induction xs arbitrary: ys zs)
  case Nil
  then show ?case by (cases zs) simp_all
next
  case (Cons x xs)
  from Cons.prems(2) obtain y ys' where ys: "ys = y # ys'" by (cases ys) auto
  from Cons.prems(3) ys obtain z zs' where zs: "zs = z # zs'" by (cases zs) auto
  from Cons.prems(1) ys zs
  have t1: "py_cmp x y \<le> 0 \<Longrightarrow> py_cmp y z \<le> 0 \<Longrightarrow> py_cmp x z \<le> 0"
    and t2: "py_cmp z x \<le> 0 \<Longrightarrow> py_cmp x y \<le> 0 \<Longrightarrow> py_cmp z y \<le> 0"
    and t3: "py_cmp y z \<le> 0 \<Longrightarrow> py_cmp z x \<le> 0 \<Longrightarrow> py_cmp y x \<le> 0"
    by simp_all
  have a: "py_cmp y x = - py_cmp x y" "py_cmp z y = - py_cmp y z" "py_cmp z x = - py_cmp x z"
    by (rule py_cmp_anti(1))+
  have A: "py_cmp x y < 0 \<or> (py_cmp x y = 0 \<and> py_cmp_list xs ys' \<le> 0)"
    using Cons.prems(2) unfolding ys by (simp split: if_splits)
  have B: "py_cmp y z < 0 \<or> (py_cmp y z = 0 \<and> py_cmp_list ys' zs' \<le> 0)"
    using Cons.prems(3) unfolding ys zs by (simp split: if_splits)
  from A have xy: "py_cmp x y \<le> 0" by linarith
  from B have yz: "py_cmp y z \<le> 0" by linarith
  from t1[OF xy yz] have xz: "py_cmp x z \<le> 0" .
  show ?case
  proof (cases "py_cmp x z = 0")
    case False
    with xz show ?thesis unfolding zs by simp
  next
    case True
    then have zx: "py_cmp z x \<le> 0" using a(3) by simp
    from t2[OF zx xy] a(2) yz have yz0: "py_cmp y z = 0" by linarith
    from t3[OF yz zx] a(1) xy have xy0: "py_cmp x y = 0" by linarith
    from A xy0 have L1: "py_cmp_list xs ys' \<le> 0" by simp
    from B yz0 have L2: "py_cmp_list ys' zs' \<le> 0" by simp
    have "\<forall>x\<in>set xs. \<forall>y\<in>set ys'. \<forall>z\<in>set zs'.
      (py_cmp x y \<le> 0 \<and> py_cmp y z \<le> 0 \<longrightarrow> py_cmp x z \<le> 0) \<and>
      (py_cmp z x \<le> 0 \<and> py_cmp x y \<le> 0 \<longrightarrow> py_cmp z y \<le> 0) \<and>
      (py_cmp y z \<le> 0 \<and> py_cmp z x \<le> 0 \<longrightarrow> py_cmp y x \<le> 0)"
      using Cons.prems(1) unfolding ys zs by simp
    from Cons.IH[OF this L1 L2] True show ?thesis unfolding zs by simp
  qed
qed

lemma py_cmp_items_le_trans:
  "\<forall>x\<in>set xs. \<forall>y\<in>set ys. \<forall>z\<in>set zs.
      (py_cmp (snd x) (snd y) \<le> 0 \<and> py_cmp (snd y) (snd z) \<le> 0 \<longrightarrow> py_cmp (snd x) (snd z) \<le> 0) \<and>
      (py_cmp (snd z) (snd x) \<le> 0 \<and> py_cmp (snd x) (snd y) \<le> 0 \<longrightarrow> py_cmp (snd z) (snd y) \<le> 0) \<and>
      (py_cmp (snd y) (snd z) \<le> 0 \<and> py_cmp (snd z) (snd x) \<le> 0 \<longrightarrow> py_cmp (snd y) (snd x) \<le> 0) \<Longrightarrow>
   py_cmp_items xs ys \<le> 0 \<Longrightarrow> py_cmp_items ys zs \<le> 0 \<Longrightarrow> py_cmp_items xs zs \<le> 0"
proof (induction xs arbitrary: ys zs)
  case Nil
  then show ?case by simp
next
  case (Cons x xs)
  from Cons.prems(2) obtain y ys' where ys: "ys = y # ys'" by (cases ys) auto
  from Cons.prems(3) ys obtain z zs' where zs: "zs = z # zs'" by (cases zs) auto
  define c where "c = (\<lambda>p q :: ustring \<times> json.
     if cmp_ustring (fst p) (fst q) \<noteq> 0 then cmp_ustring (fst p) (fst q)
     else py_cmp (snd p) (snd q))"
  have step: "py_cmp_items (p # ps) (q # qs) = (if c p q \<noteq> 0 then c p q else py_cmp_items ps qs)"
    for p q ps qs by (simp add: c_def)
  have ca: "c q p = - c p q" for p q
    using cmp_ustring_anti[of "fst q" "fst p"] py_cmp_anti(1)[of "snd q" "snd p"]
    by (simp add: c_def)
  from Cons.prems(1) ys zs
  have v1: "py_cmp (snd x) (snd y) \<le> 0 \<Longrightarrow> py_cmp (snd y) (snd z) \<le> 0 \<Longrightarrow> py_cmp (snd x) (snd z) \<le> 0"
    and v2: "py_cmp (snd z) (snd x) \<le> 0 \<Longrightarrow> py_cmp (snd x) (snd y) \<le> 0 \<Longrightarrow> py_cmp (snd z) (snd y) \<le> 0"
    and v3: "py_cmp (snd y) (snd z) \<le> 0 \<Longrightarrow> py_cmp (snd z) (snd x) \<le> 0 \<Longrightarrow> py_cmp (snd y) (snd x) \<le> 0"
    by simp_all
  have kle: "cmp_ustring (fst p) (fst q) \<le> 0" if "c p q \<le> 0" for p q
    using that cmp_ustring_anti[of "fst q" "fst p"] by (auto simp: c_def split: if_splits)
  have ctrans: "c p r \<le> 0"
    if "c p q \<le> 0" "c q r \<le> 0"
      and "py_cmp (snd p) (snd q) \<le> 0 \<Longrightarrow> py_cmp (snd q) (snd r) \<le> 0 \<Longrightarrow> py_cmp (snd p) (snd r) \<le> 0"
    for p q r
  proof -
    have k: "cmp_ustring (fst p) (fst r) \<le> 0"
      using cmp_ustring_le_trans[OF kle[OF that(1)] kle[OF that(2)]] .
    show ?thesis
    proof (cases "cmp_ustring (fst p) (fst r) = 0")
      case False
      with k show ?thesis by (simp add: c_def)
    next
      case True
      then have rp: "cmp_ustring (fst r) (fst p) \<le> 0"
        using cmp_ustring_anti[of "fst r" "fst p"] by simp
      have "cmp_ustring (fst r) (fst q) \<le> 0"
        using cmp_ustring_le_trans[OF rp kle[OF that(1)]] .
      then have qr0: "cmp_ustring (fst q) (fst r) = 0"
        using kle[OF that(2)] cmp_ustring_anti[of "fst r" "fst q"] by linarith
      have "cmp_ustring (fst q) (fst p) \<le> 0"
        using cmp_ustring_le_trans[OF kle[OF that(2)] rp] .
      then have pq0: "cmp_ustring (fst p) (fst q) = 0"
        using kle[OF that(1)] cmp_ustring_anti[of "fst q" "fst p"] by linarith
      from that(1) pq0 have 1: "py_cmp (snd p) (snd q) \<le> 0" by (simp add: c_def)
      from that(2) qr0 have 2: "py_cmp (snd q) (snd r) \<le> 0" by (simp add: c_def)
      from that(3)[OF 1 2] True show ?thesis by (simp add: c_def)
    qed
  qed
  have A: "c x y < 0 \<or> (c x y = 0 \<and> py_cmp_items xs ys' \<le> 0)"
    using Cons.prems(2) unfolding ys step by (simp split: if_splits)
  have B: "c y z < 0 \<or> (c y z = 0 \<and> py_cmp_items ys' zs' \<le> 0)"
    using Cons.prems(3) unfolding ys zs step by (simp split: if_splits)
  from A have xy: "c x y \<le> 0" by linarith
  from B have yz: "c y z \<le> 0" by linarith
  have xz: "c x z \<le> 0" by (rule ctrans[OF xy yz v1])
  show ?case
  proof (cases "c x z = 0")
    case False
    with xz show ?thesis unfolding zs step by simp
  next
    case True
    then have zx: "c z x \<le> 0" using ca[of z x] by simp
    have "c z y \<le> 0" by (rule ctrans[OF zx xy v2])
    with yz ca[of z y] have yz0: "c y z = 0" by linarith
    have "c y x \<le> 0" by (rule ctrans[OF yz zx v3])
    with xy ca[of y x] have xy0: "c x y = 0" by linarith
    from A xy0 have L1: "py_cmp_items xs ys' \<le> 0" by simp
    from B yz0 have L2: "py_cmp_items ys' zs' \<le> 0" by simp
    have "\<forall>x\<in>set xs. \<forall>y\<in>set ys'. \<forall>z\<in>set zs'.
      (py_cmp (snd x) (snd y) \<le> 0 \<and> py_cmp (snd y) (snd z) \<le> 0 \<longrightarrow> py_cmp (snd x) (snd z) \<le> 0) \<and>
      (py_cmp (snd z) (snd x) \<le> 0 \<and> py_cmp (snd x) (snd y) \<le> 0 \<longrightarrow> py_cmp (snd z) (snd y) \<le> 0) \<and>
      (py_cmp (snd y) (snd z) \<le> 0 \<and> py_cmp (snd z) (snd x) \<le> 0 \<longrightarrow> py_cmp (snd y) (snd x) \<le> 0)"
      using Cons.prems(1) unfolding ys zs by simp
    from Cons.IH[OF this L1 L2] True show ?thesis unfolding zs step by simp
  qed
qed

lemma cmp_int_le_trans: "cmp_int a b \<le> 0 \<Longrightarrow> cmp_int b c \<le> 0 \<Longrightarrow> cmp_int a c \<le> 0"
  by (auto simp: cmp_int_def split: if_splits)

lemma py_cmp_le_trans:
  "py_cmp a b \<le> 0 \<Longrightarrow> py_cmp b c \<le> 0 \<Longrightarrow> py_cmp a c \<le> 0"
proof (induction "size a + size b + size c" arbitrary: a b c rule: less_induct)
  case less
  note ab = less.prems(1) and bc = less.prems(2)
  from py_cmp_le_rank[OF ab] py_cmp_le_rank[OF bc]
  have r: "type_rank a \<le> type_rank b" "type_rank b \<le> type_rank c" .
  show ?case
  proof (cases "type_rank a < type_rank c")
    case True
    then show ?thesis by (simp add: py_cmp_rank_lt)
  next
    case False
    with r have e: "type_rank b = type_rank a" "type_rank c = type_rank a" by simp_all
    from rank_cases[of a] consider (num) "type_rank a \<le> 1" | (obj) d where "a = JObj d"
      | (arr) xs where "a = JArr xs" | (str) s where "a = JStr s" by blast
    then show ?thesis
    proof cases
      case num
      with e have "type_rank b \<le> 1" "type_rank c \<le> 1" by simp_all
      with num e ab bc show ?thesis
        by (simp add: py_cmp_num cmp_int_le_trans[of "num_val a" "num_val b" "num_val c"])
    next
      case str
      with e obtain t w where "b = JStr t" "c = JStr w" by (cases b; cases c) simp_all
      with str ab bc show ?thesis using cmp_ustring_le_trans by simp
    next
      case arr
      with e obtain ys zs where bcs: "b = JArr ys" "c = JArr zs" by (cases b; cases c) simp_all
      have "\<forall>x\<in>set xs. \<forall>y\<in>set ys. \<forall>z\<in>set zs.
        (py_cmp x y \<le> 0 \<and> py_cmp y z \<le> 0 \<longrightarrow> py_cmp x z \<le> 0) \<and>
        (py_cmp z x \<le> 0 \<and> py_cmp x y \<le> 0 \<longrightarrow> py_cmp z y \<le> 0) \<and>
        (py_cmp y z \<le> 0 \<and> py_cmp z x \<le> 0 \<longrightarrow> py_cmp y x \<le> 0)"
      proof (intro ballI)
        fix x y z assume m: "x \<in> set xs" "y \<in> set ys" "z \<in> set zs"
        from size_in_JArr[OF m(1)] size_in_JArr[OF m(2)] size_in_JArr[OF m(3)]
        have s: "size x + size y + size z < size a + size b + size c"
          unfolding arr bcs by linarith
        then have s2: "size z + size x + size y < size a + size b + size c"
          and s3: "size y + size z + size x < size a + size b + size c" by linarith+
        show "(py_cmp x y \<le> 0 \<and> py_cmp y z \<le> 0 \<longrightarrow> py_cmp x z \<le> 0) \<and>
          (py_cmp z x \<le> 0 \<and> py_cmp x y \<le> 0 \<longrightarrow> py_cmp z y \<le> 0) \<and>
          (py_cmp y z \<le> 0 \<and> py_cmp z x \<le> 0 \<longrightarrow> py_cmp y x \<le> 0)"
          using less.hyps[OF s] less.hyps[OF s2] less.hyps[OF s3] by blast
      qed
      from py_cmp_list_le_trans[OF this] ab bc show ?thesis unfolding arr bcs by simp
    next
      case obj
      with e obtain ys zs where bcs: "b = JObj ys" "c = JObj zs" by (cases b; cases c) simp_all
      have el: "\<forall>x\<in>set d. \<forall>y\<in>set ys. \<forall>z\<in>set zs.
        (py_cmp (snd x) (snd y) \<le> 0 \<and> py_cmp (snd y) (snd z) \<le> 0 \<longrightarrow> py_cmp (snd x) (snd z) \<le> 0) \<and>
        (py_cmp (snd z) (snd x) \<le> 0 \<and> py_cmp (snd x) (snd y) \<le> 0 \<longrightarrow> py_cmp (snd z) (snd y) \<le> 0) \<and>
        (py_cmp (snd y) (snd z) \<le> 0 \<and> py_cmp (snd z) (snd x) \<le> 0 \<longrightarrow> py_cmp (snd y) (snd x) \<le> 0)"
      proof (intro ballI)
        fix x y z assume m: "x \<in> set d" "y \<in> set ys" "z \<in> set zs"
        from size_in_JObj[OF m(1)] size_in_JObj[OF m(2)] size_in_JObj[OF m(3)]
        have s: "size (snd x) + size (snd y) + size (snd z) < size a + size b + size c"
          unfolding obj bcs by linarith
        then have s2: "size (snd z) + size (snd x) + size (snd y) < size a + size b + size c"
          and s3: "size (snd y) + size (snd z) + size (snd x) < size a + size b + size c"
          by linarith+
        show "(py_cmp (snd x) (snd y) \<le> 0 \<and> py_cmp (snd y) (snd z) \<le> 0 \<longrightarrow> py_cmp (snd x) (snd z) \<le> 0) \<and>
          (py_cmp (snd z) (snd x) \<le> 0 \<and> py_cmp (snd x) (snd y) \<le> 0 \<longrightarrow> py_cmp (snd z) (snd y) \<le> 0) \<and>
          (py_cmp (snd y) (snd z) \<le> 0 \<and> py_cmp (snd z) (snd x) \<le> 0 \<longrightarrow> py_cmp (snd y) (snd x) \<le> 0)"
          using less.hyps[OF s] less.hyps[OF s2] less.hyps[OF s3] by blast
      qed
      note it = py_cmp_items_le_trans[OF el]
      from ab have 1: "length d < length ys \<or> (length d = length ys \<and> py_cmp_items d ys \<le> 0)"
        unfolding obj bcs by (simp split: if_splits)
      from bc have 2: "length ys < length zs \<or> (length ys = length zs \<and> py_cmp_items ys zs \<le> 0)"
        unfolding bcs by (simp split: if_splits)
      show ?thesis
      proof (cases "length d < length zs")
        case True
        then show ?thesis unfolding obj bcs by simp
      next
        case False
        with 1 2 have l: "length d = length ys" "length ys = length zs"
          and c: "py_cmp_items d ys \<le> 0" "py_cmp_items ys zs \<le> 0" by linarith+
        from it[OF c] l show ?thesis unfolding obj bcs by simp
      qed
    qed
  qed
qed

lemma py_cmp_refl: "py_cmp a a = 0"
  using py_cmp_anti(1)[of a a] by simp

lemma tuple_lt_asym: "tuple_lt a b \<Longrightarrow> \<not> tuple_lt b a"
  using py_cmp_anti(1)[of "snd b" "snd a"] by (auto simp: tuple_lt_def split: if_splits)

lemma tuple_lt_negtrans:
  "\<not> tuple_lt a b \<Longrightarrow> \<not> tuple_lt b c \<Longrightarrow> \<not> tuple_lt a c"
proof -
  assume ab: "\<not> tuple_lt a b" and bc: "\<not> tuple_lt b c"
  from ab have 1: "fst b < fst a \<or> (fst a = fst b \<and> py_cmp (snd b) (snd a) \<le> 0)"
    using py_cmp_anti(1)[of "snd b" "snd a"] by (auto simp: tuple_lt_def split: if_splits)
  from bc have 2: "fst c < fst b \<or> (fst b = fst c \<and> py_cmp (snd c) (snd b) \<le> 0)"
    using py_cmp_anti(1)[of "snd c" "snd b"] by (auto simp: tuple_lt_def split: if_splits)
  show "\<not> tuple_lt a c"
  proof (cases "fst a = fst c")
    case False
    with 1 2 show ?thesis by (auto simp: tuple_lt_def)
  next
    case True
    with 1 2 have "py_cmp (snd c) (snd b) \<le> 0" "py_cmp (snd b) (snd a) \<le> 0" by linarith+
    from py_cmp_le_trans[OF this] True show ?thesis
      using py_cmp_anti(1)[of "snd c" "snd a"] by (simp add: tuple_lt_def)
  qed
qed

lemma sorted_insert_desc_order:
  assumes asym: "\<And>a b. lt a b \<Longrightarrow> \<not> lt b a"
    and nt: "\<And>a b c. \<not> lt a b \<Longrightarrow> \<not> lt b c \<Longrightarrow> \<not> lt a c"
  shows "sorted_wrt (\<lambda>a b. \<not> lt a b) ys \<Longrightarrow> sorted_wrt (\<lambda>a b. \<not> lt a b) (insert_desc lt x ys)"
proof (induction ys)
  case Nil
  then show ?case by simp
next
  case (Cons y ys)
  show ?case
  proof (cases "lt x y")
    case True
    from Cons.prems have s: "sorted_wrt (\<lambda>a b. \<not> lt a b) ys" and h: "\<forall>z\<in>set ys. \<not> lt y z"
      by simp_all
    from asym[OF True] have "\<not> lt y x" .
    with h have "\<forall>z\<in>set (insert_desc lt x ys). \<not> lt y z"
      by (induction ys) auto
    with Cons.IH[OF s] True show ?thesis by simp
  next
    case False
    from Cons.prems have "\<forall>z\<in>set ys. \<not> lt y z" by simp
    with False nt have "\<forall>z\<in>set ys. \<not> lt x z" by blast
    with False Cons.prems show ?thesis by simp
  qed
qed

lemma sorted_sort_reverse_order:
  assumes asym: "\<And>a b. lt a b \<Longrightarrow> \<not> lt b a"
    and nt: "\<And>a b c. \<not> lt a b \<Longrightarrow> \<not> lt b c \<Longrightarrow> \<not> lt a c"
  shows "sorted_wrt (\<lambda>a b. \<not> lt a b) (sort_reverse lt xs)"
  by (induction xs) (simp_all add: sort_reverse_def sorted_insert_desc_order[OF asym nt])

lemma sorted_sort_reverse_tuple:
  "sorted_wrt (\<lambda>a b. \<not> tuple_lt a b) (sort_reverse tuple_lt xs)"
  by (rule sorted_sort_reverse_order) (erule tuple_lt_asym, erule (1) tuple_lt_negtrans)

section \<open>Order of the filtered candidates\<close>

lemma map_snd_scored:
  "map snd (scored U self query its) = filter (\<lambda>it. fst (item_res U self query it)) its"
  by (simp add: scored_def comp_def)

lemma scored_fst:
  "p \<in> set (scored U self query its) \<Longrightarrow> fst p = snd (item_res U self query (snd p))"
  by (auto simp: scored_def)

lemma sorted_scored:
  "sorted_wrt (\<lambda>a b. snd (item_res U self query b) \<le> snd (item_res U self query a))
     (map snd (sort_reverse tuple_lt (scored U self query its)))"
proof -
  let ?xs = "sort_reverse tuple_lt (scored U self query its)"
  have "sorted_wrt (\<lambda>p q. fst q \<le> fst p) ?xs"
    by (rule sorted_sort_reverse) (simp_all add: tuple_lt_fst)
  then have "sorted_wrt (\<lambda>p q. snd (item_res U self query (snd q))
                              \<le> snd (item_res U self query (snd p))) ?xs"
    by (rule sorted_wrt_mono_rel[rotated]) (simp add: scored_fst)
  then show ?thesis by (simp add: sorted_wrt_map)
qed

lemma precedes_scored:
  assumes "precedes a b its"
    and "fst (item_res U self query a)" "fst (item_res U self query b)"
    and "snd (item_res U self query a) = snd (item_res U self query b)"
    and "0 \<le> py_cmp a b"
  shows "precedes a b (map snd (sort_reverse tuple_lt (scored U self query its)))"
proof -
  let ?f = "\<lambda>it. (snd (item_res U self query it), it)"
  have "precedes a b (filter (\<lambda>it. fst (item_res U self query it)) its)"
    using assms(1-3) by (simp add: precedes_filter)
  then have "precedes (?f a) (?f b) (scored U self query its)"
    unfolding scored_def by (rule precedes_map)
  moreover have "\<not> tuple_lt (?f a) (?f b)"
    using assms(4,5) by (simp add: tuple_lt_def)
  ultimately have "precedes (?f a) (?f b) (sort_reverse tuple_lt (scored U self query its))"
    by (rule precedes_sort_reverse)
  from precedes_map[OF this, of snd] show ?thesis by simp
qed

lemma filter_feedback_items:
  assumes "cache_ok U self" and "filter_feedback U self fb query = Inr (self', fb')"
  shows "items_of fb' = map snd (sort_reverse tuple_lt (scored U self query (items_of fb)))"
  using filter_feedback_spec[OF assms] by (auto simp: items_of_result)

lemma filter_feedback_mset:
  assumes "cache_ok U self" and "filter_feedback U self fb query = Inr (self', fb')"
  shows "mset (items_of fb') =
         mset (filter (\<lambda>it. fst (item_res U self query it)) (items_of fb))"
proof -
  have "mset (items_of fb') = mset (map snd (scored U self query (items_of fb)))"
    unfolding filter_feedback_items[OF assms] by simp
  then show ?thesis by (simp only: map_snd_scored)
qed

lemma precedes_sorted: "sorted_wrt R xs \<Longrightarrow> precedes a b xs \<Longrightarrow> R a b"
  by (induction xs) auto

lemma precedes_total:
  "a \<in> set xs \<Longrightarrow> b \<in> set xs \<Longrightarrow> a \<noteq> b \<Longrightarrow> precedes a b xs \<or> precedes b a xs"
  by (induction xs) auto

lemma sorted_scored_pairs:
  "sorted_wrt (\<lambda>a b. \<not> tuple_lt (snd (item_res U self query a), a)
                               (snd (item_res U self query b), b))
     (map snd (sort_reverse tuple_lt (scored U self query its)))"
proof -
  let ?xs = "sort_reverse tuple_lt (scored U self query its)"
  have p: "p = (snd (item_res U self query (snd p)), snd p)" if "p \<in> set ?xs" for p
    using scored_fst[of p U self query its] that by (cases p) simp
  have "sorted_wrt (\<lambda>p q. \<not> tuple_lt p q) ?xs" by (rule sorted_sort_reverse_tuple)
  then have "sorted_wrt (\<lambda>p q. \<not> tuple_lt (snd (item_res U self query (snd p)), snd p)
                                  (snd (item_res U self query (snd q)), snd q)) ?xs"
    by (rule sorted_wrt_mono_rel[rotated]) (use p in metis)
  then show ?thesis by (simp add: sorted_wrt_map)
qed

lemma swapped_scored:
  assumes "a \<in> set its" "b \<in> set its"
    and "fst (item_res U self query a)" "fst (item_res U self query b)"
    and "snd (item_res U self query a) = snd (item_res U self query b)"
    and "py_cmp a b < 0"
  shows "precedes b a (map snd (sort_reverse tuple_lt (scored U self query its))) \<and>
         \<not> precedes a b (map snd (sort_reverse tuple_lt (scored U self query its)))"
proof -
  let ?out = "map snd (sort_reverse tuple_lt (scored U self query its))"
  have s: "set ?out = {it \<in> set its. fst (item_res U self query it)}"
    by (force simp: scored_def)
  have lt: "tuple_lt (snd (item_res U self query a), a) (snd (item_res U self query b), b)"
    using assms(5,6) by (simp add: tuple_lt_def)
  have n: "\<not> precedes a b ?out"
    using precedes_sorted[OF sorted_scored_pairs, of a b U self query its] lt by blast
  have "a \<noteq> b" using assms(6) py_cmp_refl[of a] by auto
  moreover have "a \<in> set ?out" "b \<in> set ?out" using assms(1-4) s by auto
  ultimately have "precedes a b ?out \<or> precedes b a ?out" by (intro precedes_total)
  with n show ?thesis by blast
qed

text \<open>
  C2, as the specification states it: candidates of equal score keep their input order.
  This fails for the candidates titled \<open>a\<close> and \<open>b\<close> with the empty query. Both score
  \<open>-1\<close>; the sort compares the pairs \<open>(score, item)\<close>, the second dictionary is the
  greater one, and the output is \<open>b\<close>, \<open>a\<close>.
\<close>

theorem filter_feedback_stable_counterexample:
  "map_sum id snd (filter_feedback sample_tables default_fuzzy
       (feedback [candidate ''a'', candidate ''b'']) [])
     = Inr (feedback [candidate ''b'', candidate ''a'']) \<and>
   fst (match sample_tables default_fuzzy [] (u ''a'')) =
   fst (match sample_tables default_fuzzy [] (u ''b''))"
  by code_simp

text \<open>
  C2, amended. On a well-formed document the filter returns, and whenever it returns: the
  candidates returned are exactly the surviving ones, and they are sorted by descending
  score. Among candidates of equal score the order is the descending order of Python 2's
  comparison of the candidate records: a greater record comes before a smaller one
  whatever the input order, and two candidates keep their input order whenever the
  earlier one is not smaller than the later one, in particular when the two records
  compare equal.
\<close>

theorem filter_feedback_sorted:
  assumes "cache_ok U self"
  shows "(well_formed fb \<longrightarrow> (\<exists>self' fb'. filter_feedback U self fb query = Inr (self', fb'))) \<and>
    (\<forall>self' fb'. filter_feedback U self fb query = Inr (self', fb') \<longrightarrow>
       mset (items_of fb') = mset (filter (\<lambda>it. fst (item_res U self query it)) (items_of fb)) \<and>
       sorted_wrt (\<lambda>a b. snd (item_res U self query b) \<le> snd (item_res U self query a))
         (items_of fb') \<and>
       (\<forall>a b. precedes a b (items_of fb) \<and>
              fst (item_res U self query a) \<and> fst (item_res U self query b) \<and>
              snd (item_res U self query a) = snd (item_res U self query b) \<and>
              0 \<le> py_cmp a b
              \<longrightarrow> precedes a b (items_of fb')) \<and>
       sorted_wrt (\<lambda>a b. \<not> tuple_lt (snd (item_res U self query a), a)
                                    (snd (item_res U self query b), b))
         (items_of fb') \<and>
       (\<forall>a b. a \<in> set (items_of fb) \<and> b \<in> set (items_of fb) \<and>
              fst (item_res U self query a) \<and> fst (item_res U self query b) \<and>
              snd (item_res U self query a) = snd (item_res U self query b) \<and>
              py_cmp a b < 0
              \<longrightarrow> precedes b a (items_of fb') \<and> \<not> precedes a b (items_of fb')))"
proof (intro conjI allI impI)
  assume "well_formed fb"
  then show "\<exists>self' fb'. filter_feedback U self fb query = Inr (self', fb')"
    by (rule filter_feedback_returns)
next
  fix self' fb'
  assume r: "filter_feedback U self fb query = Inr (self', fb')"
  note out = filter_feedback_items[OF assms r]
  show "mset (items_of fb') =
      mset (filter (\<lambda>it. fst (item_res U self query it)) (items_of fb))"
    by (rule filter_feedback_mset[OF assms r])
  show "sorted_wrt (\<lambda>a b. snd (item_res U self query b) \<le> snd (item_res U self query a))
         (items_of fb')"
    unfolding out by (rule sorted_scored)
  show "sorted_wrt (\<lambda>a b. \<not> tuple_lt (snd (item_res U self query a), a)
                                    (snd (item_res U self query b), b))
         (items_of fb')"
    unfolding out by (rule sorted_scored_pairs)
  {
    fix a b
    assume "precedes a b (items_of fb) \<and>
          fst (item_res U self query a) \<and> fst (item_res U self query b) \<and>
          snd (item_res U self query a) = snd (item_res U self query b) \<and>
          0 \<le> py_cmp a b"
    then show "precedes a b (items_of fb')"
      unfolding out by (simp add: precedes_scored)
  }
  {
    fix a b
    assume h: "a \<in> set (items_of fb) \<and> b \<in> set (items_of fb) \<and>
          fst (item_res U self query a) \<and> fst (item_res U self query b) \<and>
          snd (item_res U self query a) = snd (item_res U self query b) \<and>
          py_cmp a b < 0"
    then have "precedes b a (items_of fb') \<and> \<not> precedes a b (items_of fb')"
      unfolding out by (intro swapped_scored) simp_all
    then show "precedes b a (items_of fb')" and "\<not> precedes a b (items_of fb')"
      by simp_all
  }
qed

theorem filter_feedback_sorted_witness:
  "cache_ok sample_tables default_fuzzy \<and>
   well_formed (feedback (map candidate [''Firefox'', ''Safari'', ''Chrome''])) \<and>
   precedes (candidate ''Safari'') (candidate ''Chrome'')
     (items_of (feedback (map candidate [''Firefox'', ''Safari'', ''Chrome'']))) \<and>
   item_res sample_tables default_fuzzy [] (candidate ''Safari'') = (True, - 6) \<and>
   item_res sample_tables default_fuzzy [] (candidate ''Chrome'') = (True, - 6) \<and>
   0 \<le> py_cmp (candidate ''Safari'') (candidate ''Chrome'') \<and>
   (\<exists>self' fb'. filter_feedback sample_tables default_fuzzy
        (feedback (map candidate [''Firefox'', ''Safari'', ''Chrome''])) [] = Inr (self', fb') \<and>
      precedes (candidate ''Safari'') (candidate ''Chrome'') (items_of fb')) \<and>
   well_formed (feedback [candidate ''a'', candidate ''b'']) \<and>
   candidate ''a'' \<in> set (items_of (feedback [candidate ''a'', candidate ''b''])) \<and>
   candidate ''b'' \<in> set (items_of (feedback [candidate ''a'', candidate ''b''])) \<and>
   item_res sample_tables default_fuzzy [] (candidate ''a'') = (True, - 1) \<and>
   item_res sample_tables default_fuzzy [] (candidate ''b'') = (True, - 1) \<and>
   py_cmp (candidate ''a'') (candidate ''b'') < 0 \<and>
   (\<exists>self' fb'. filter_feedback sample_tables default_fuzzy
        (feedback [candidate ''a'', candidate ''b'']) [] = Inr (self', fb') \<and>
      precedes (candidate ''b'') (candidate ''a'') (items_of fb') \<and>
      \<not> precedes (candidate ''a'') (candidate ''b'') (items_of fb'))"
proof -
  let ?fb = "feedback (map candidate [''Firefox'', ''Safari'', ''Chrome''])"
  note t = filter_feedback_sorted[OF cache_ok_default,
      where U = sample_tables and fb = ?fb and query = "[]"]
  have w: "well_formed ?fb" by code_simp
  have p: "precedes (candidate ''Safari'') (candidate ''Chrome'') (items_of ?fb)" by code_simp
  have s: "item_res sample_tables default_fuzzy [] (candidate ''Safari'') = (True, - 6)"
    by code_simp
  have c: "item_res sample_tables default_fuzzy [] (candidate ''Chrome'') = (True, - 6)"
    by code_simp
  have o: "0 \<le> py_cmp (candidate ''Safari'') (candidate ''Chrome'')" by code_simp
  from t w obtain self' fb' where
    r: "filter_feedback sample_tables default_fuzzy ?fb [] = Inr (self', fb')" by blast
  with t p s c o have "precedes (candidate ''Safari'') (candidate ''Chrome'') (items_of fb')"
    by simp
  with r have 1: "\<exists>self' fb'. filter_feedback sample_tables default_fuzzy ?fb [] = Inr (self', fb') \<and>
      precedes (candidate ''Safari'') (candidate ''Chrome'') (items_of fb')" by blast
  let ?ab = "feedback [candidate ''a'', candidate ''b'']"
  note t2 = filter_feedback_sorted[OF cache_ok_default,
      where U = sample_tables and fb = ?ab and query = "[]"]
  have w2: "well_formed ?ab" by code_simp
  have ia: "candidate ''a'' \<in> set (items_of ?ab)" by code_simp
  have ib: "candidate ''b'' \<in> set (items_of ?ab)" by code_simp
  have sa: "item_res sample_tables default_fuzzy [] (candidate ''a'') = (True, - 1)"
    by code_simp
  have sb: "item_res sample_tables default_fuzzy [] (candidate ''b'') = (True, - 1)"
    by code_simp
  have lt: "py_cmp (candidate ''a'') (candidate ''b'') < 0" by code_simp
  from t2 w2 obtain self2 fb2 where
    r2: "filter_feedback sample_tables default_fuzzy ?ab [] = Inr (self2, fb2)" by blast
  with t2 ia ib sa sb lt
  have "precedes (candidate ''b'') (candidate ''a'') (items_of fb2) \<and>
        \<not> precedes (candidate ''a'') (candidate ''b'') (items_of fb2)"
    by simp
  with r2 have 2: "\<exists>self' fb'. filter_feedback sample_tables default_fuzzy ?ab [] = Inr (self', fb') \<and>
      precedes (candidate ''b'') (candidate ''a'') (items_of fb') \<and>
      \<not> precedes (candidate ''a'') (candidate ''b'') (items_of fb')" by blast
  from cache_ok_default[of sample_tables] w p s c o 1 w2 ia ib sa sb lt 2
  show ?thesis by (intro conjI)
qed

section \<open>What the filter changes\<close>

lemma filter_feedback_shape:
  assumes "filter_feedback U self fb query = Inr (self', fb')"
  shows "\<exists>d out. fb = JObj d \<and> fb' = JObj (dict_set d (u ''items'') (JArr out)) \<and>
           set out \<subseteq> set (items_of fb)"
proof -
  from assms obtain d where d: "fb = JObj d"
    by (cases fb) (simp_all add: filter_feedback_def)
  from assms d obtain v where v: "dict_get d (u ''items'') = Some v"
    by (auto simp: filter_feedback_def split: option.splits)
  from assms d v obtain its where its: "py_iter v = Inr its"
    by (auto simp: filter_feedback_def split: sum.splits)
  have io: "items_of fb = its" by (simp add: items_of_def d v its)
  from assms d v its obtain items where
    l: "filter_loop U self (isascii U query) query its [] = Inr (self', items)"
    and f: "fb' = JObj (dict_set d (u ''items'') (JArr (map snd (sort_reverse tuple_lt items))))"
    by (auto simp: filter_feedback_def split: sum.splits)
  from filter_loop_subset[OF l] have "set (map snd (sort_reverse tuple_lt items)) \<subseteq> set its"
    by simp
  with d f io show ?thesis by blast
qed

text \<open>
  C10. The feedback filter changes its input document in place and returns the very same
  object: the address returned is the address passed in, no other object of the store is
  changed, and in the dictionary at that address only the entry \<^verbatim>\<open>items\<close> is replaced.
  Every other entry (for example \<^verbatim>\<open>variables\<close>) is as before, and each candidate of the
  new list is one of the candidate records of the input, unmodified.
\<close>

theorem filter_feedback_frame:
  assumes "filter_feedback_at U self \<sigma> fb query = Inr (self', \<sigma>', r)"
  shows "r = fb \<and> (\<forall>a. a \<noteq> fb \<longrightarrow> \<sigma>' a = \<sigma> a) \<and>
    (\<exists>d d' out. \<sigma> fb = JObj d \<and> \<sigma>' fb = JObj d' \<and>
       (\<forall>k. k \<noteq> u ''items'' \<longrightarrow> dict_get d' k = dict_get d k) \<and>
       dict_get d' (u ''items'') = Some (JArr out) \<and>
       set out \<subseteq> set (items_of (\<sigma> fb)))"
proof -
  from assms obtain fb' where
    f: "filter_feedback U self (\<sigma> fb) query = Inr (self', fb')"
    and s: "\<sigma>' = \<sigma>(fb := fb')" and r: "r = fb"
    by (auto simp: filter_feedback_at_def split: sum.splits)
  from filter_feedback_shape[OF f] obtain d out where
    "\<sigma> fb = JObj d" "fb' = JObj (dict_set d (u ''items'') (JArr out))"
    "set out \<subseteq> set (items_of (\<sigma> fb))"
    by blast
  with s r show ?thesis by (auto simp: dict_get_set)
qed

theorem filter_feedback_frame_witness:
  "\<exists>self' \<sigma>' r.
     filter_feedback_at sample_tables default_fuzzy
       ((\<lambda>a. JNull)(7 := JObj [(u ''items'', JArr (map candidate [''Firefox'', ''Safari''])),
                              (u ''variables'', JObj [(u ''fuzzy_session_id'', JStr (u ''42''))])]))
       7 (u ''fx'') = Inr (self', \<sigma>', r) \<and>
     r = 7 \<and> \<sigma>' 3 = JNull \<and>
     (\<exists>d'. \<sigma>' 7 = JObj d' \<and>
        dict_get d' (u ''variables'') = Some (JObj [(u ''fuzzy_session_id'', JStr (u ''42''))]))"
proof -
  let ?doc = "JObj [(u ''items'', JArr (map candidate [''Firefox'', ''Safari''])),
                    (u ''variables'', JObj [(u ''fuzzy_session_id'', JStr (u ''42''))])]"
  let ?s = "(\<lambda>a. JNull)(7 := ?doc)"
  have "well_formed ?doc" by code_simp
  from filter_feedback_returns[OF this, of sample_tables default_fuzzy "u ''fx''"]
  obtain self' fb' where "filter_feedback sample_tables default_fuzzy ?doc (u ''fx'') = Inr (self', fb')"
    by blast
  then have e: "filter_feedback_at sample_tables default_fuzzy ?s 7 (u ''fx'')
                  = Inr (self', ?s(7 := fb'), 7)"
    by (simp add: filter_feedback_at_def)
  have v: "dict_get [(u ''items'', JArr (map candidate [''Firefox'', ''Safari''])),
                    (u ''variables'', JObj [(u ''fuzzy_session_id'', JStr (u ''42''))])]
             (u ''variables'') = Some (JObj [(u ''fuzzy_session_id'', JStr (u ''42''))])"
    by code_simp
  have n: "u ''variables'' \<noteq> u ''items''" by code_simp
  from filter_feedback_frame[OF e] v n
  have "\<exists>d'. (?s(7 := fb')) 7 = JObj d' \<and>
     dict_get d' (u ''variables'') = Some (JObj [(u ''fuzzy_session_id'', JStr (u ''42''))])"
    by auto
  with e show ?thesis by (intro exI[of _ self'] exI[of _ "?s(7 := fb')"] exI[of _ 7]) simp
qed

section \<open>Dependence on the character tables\<close>

text \<open>
  On ASCII text the matcher uses the tables at ASCII characters only, and the cursor never
  reads the query out of range.
\<close>

lemma on_match_tables:
  assumes "ascii_case U" "c < 128"
  shows "on_match U self c nm st = on_match sample_tables self c nm st"
  using assms
  by (simp add: on_match_def new_score_at_def update_best_def ascii_case_def sample_tables_def
      Let_def)

lemma match_step_tables:
  assumes "ascii_case U" "c < 128" "ascii_text q" "q_idx st \<le> length q"
  shows "match_step U self q c st = match_step sample_tables self q c st"
proof -
  have c: "lower U c = ascii_lower c" "upper U c = ascii_upper c"
    using assms(1,2) by (simp_all add: ascii_case_def)
  have s: "lower sample_tables = ascii_lower" "upper sample_tables = ascii_upper"
    by (simp_all add: sample_tables_def)
  show ?thesis
  proof (cases "q_idx st = length q")
    case True
    then show ?thesis
      by (auto simp: match_step_def Let_def c s on_match_tables[OF assms(1,2)])
  next
    case False
    with assms(4) have "q ! q_idx st \<in> set q" by simp
    with assms(3) have "q ! q_idx st < 128" by (simp add: ascii_text_def list_all_iff)
    with assms(1) have "lower U (q ! q_idx st) = ascii_lower (q ! q_idx st)"
      by (simp add: ascii_case_def)
    then show ?thesis
      by (auto simp: match_step_def Let_def c s on_match_tables[OF assms(1,2)])
  qed
qed

lemma match_loop_tables:
  assumes "ascii_case U" "ascii_text q"
  shows "ascii_text t \<Longrightarrow> q_idx st \<le> length q \<Longrightarrow>
     match_loop U self q t st = match_loop sample_tables self q t st"
proof (induction t arbitrary: st)
  case Nil
  then show ?case by simp
next
  case (Cons c rest)
  from Cons.prems(1) have c: "c < 128" and r: "ascii_text rest"
    by (simp_all add: ascii_text_def)
  have e: "match_step U self q c st = match_step sample_tables self q c st"
    by (rule match_step_tables[OF assms(1) c assms(2) Cons.prems(2)])
  have "q_idx (match_step sample_tables self q c st) \<le> length q"
    using Cons.prems(2) by (simp add: q_idx_step)
  from Cons.IH[OF r this] e show ?case by simp
qed

lemma match_res_tables:
  assumes "ascii_case U" "ascii_text q" "ascii_text t"
  shows "match_res U self q t = match_res sample_tables self q t"
  using match_loop_tables[OF assms(1,2,3), of scan_init self]
  by (simp add: match_res_def scan_init_def)

lemma fold_diacritics_ascii:
  assumes "ascii_decomp U"
  shows "ascii_text s \<Longrightarrow> fold_diacritics U s = s"
proof (induction s)
  case Nil
  then show ?case by (simp add: fold_diacritics_def)
next
  case (Cons c s)
  from Cons.prems have c: "c < 128" and s: "ascii_text s" by (simp_all add: ascii_text_def)
  from assms c have "decomp U c = [c]" by (simp add: ascii_decomp_def)
  with Cons.IH[OF s] c show ?case by (simp add: fold_diacritics_def)
qed

lemma isascii_imp_ascii_text: "isascii U s \<Longrightarrow> ascii_text s"
proof -
  assume "isascii U s"
  then have "s = filter (\<lambda>c. c < 128) (concat (map (decomp U) s))"
    by (simp add: isascii_def fold_diacritics_def)
  then have "set s = set (filter (\<lambda>c. c < 128) (concat (map (decomp U) s)))"
    by (rule arg_cong)
  then show ?thesis by (auto simp: ascii_text_def list_all_iff)
qed

lemma isascii_iff:
  assumes "ascii_decomp U"
  shows "isascii U s \<longleftrightarrow> ascii_text s"
  using isascii_imp_ascii_text fold_diacritics_ascii[OF assms] by (auto simp: isascii_def)

lemma get_terms_candidate: "get_terms (candidate t) = Inr (JStr (u t))"
  by (simp add: get_terms_def candidate_def dict_get_def u_def)

lemma item_res_candidate:
  assumes "ascii_case U" "ascii_decomp U" "ascii_text q" "ascii_text (u t)"
  shows "item_res U self q (candidate t) = match_res sample_tables self q (u t)"
proof -
  have "terms_of U (isascii U q) (candidate t) = u t"
    by (simp add: terms_of_def get_terms_candidate fold_diacritics_ascii[OF assms(2,4)])
  then show ?thesis
    by (simp add: item_res_def match_res_tables[OF assms(1,3,4)])
qed

lemma filter_feedback_eval:
  assumes "cache_ok U self" "list_all text_item its"
  shows "\<exists>self'. filter_feedback U self (feedback its) q =
           Inr (self', feedback (map snd (sort_reverse tuple_lt (scored U self q its))))"
proof -
  have w: "well_formed (feedback its)"
    using assms(2) by (simp add: well_formed_def feedback_def dict_get_def)
  have i: "items_of (feedback its) = its"
    by (simp add: items_of_def feedback_def dict_get_def py_iter_def)
  from filter_feedback_returns[OF w, of U self q] obtain self' fb' where
    r: "filter_feedback U self (feedback its) q = Inr (self', fb')" by blast
  from filter_feedback_spec[OF assms(1) r]
  have "fb' = feedback (map snd (sort_reverse tuple_lt (scored U self q its)))"
    by (auto simp: feedback_def i[unfolded feedback_def])
  with r show ?thesis by blast
qed

lemma text_item_candidate [simp]: "text_item (candidate t)"
  by (simp add: text_item_def get_terms_candidate)

section \<open>The fold mode\<close>

lemma cafe_folded:
  assumes "ascii_decomp U" "decomp U 233 = [101, 769]"
  shows "fold_diacritics U [99, 97, 102, 233] = [99, 97, 102, 101]"
  using assms by (simp add: fold_diacritics_def ascii_decomp_def)

lemma cafe_lower:
  assumes "ascii_case U"
  shows "map (lower U) [99, 97, 102, 101] = [99, 97, 102, 101]"
  using assms by (simp add: ascii_case_def ascii_lower_def)

text \<open>
  C7. The feedback filter decides the fold mode once per call, from the query alone: the
  mode is on exactly when every character of the query is an ASCII character. With the
  mode on, the match text of every candidate is diacritic-folded before it is scored;
  with the mode off it is scored as it is; the candidates returned are those matched on
  that text. So a candidate with match text \<open>caf\<acute>e\<close> (U+00E9) is kept for the query
  \<open>cafe\<close>, and a candidate with match text \<open>cafe\<close> is dropped for the query \<open>caf\<acute>e\<close>.
  The tables are assumed to be the Unicode ones on the characters involved.
\<close>

theorem filter_feedback_fold_mode:
  assumes "cache_ok U self" "ascii_case U" "ascii_decomp U"
    and "decomp U 233 = [101, 769]" "lower U 233 \<noteq> 101"
  shows "(isascii U query \<longleftrightarrow> ascii_text query) \<and>
    (\<forall>it t. get_terms it = Inr (JStr t) \<longrightarrow>
       terms_of U (isascii U query) it = (if ascii_text query then fold_diacritics U t else t)) \<and>
    (\<forall>self' fb'. filter_feedback U self fb query = Inr (self', fb') \<longrightarrow>
       mset (items_of fb') =
       mset (filter (\<lambda>it. fst (match_res U self query (terms_of U (isascii U query) it)))
               (items_of fb))) \<and>
    (\<exists>self'. filter_feedback U self
        (feedback [JObj [(u ''match'', JStr [99, 97, 102, 233])]]) (u ''cafe'') =
        Inr (self', feedback [JObj [(u ''match'', JStr [99, 97, 102, 233])]])) \<and>
    (\<exists>self'. filter_feedback U self
        (feedback [JObj [(u ''match'', JStr (u ''cafe''))]]) [99, 97, 102, 233] =
        Inr (self', feedback []))"
proof (intro conjI allI impI)
  show a: "isascii U query \<longleftrightarrow> ascii_text query" by (rule isascii_iff[OF assms(3)])
  show "terms_of U (isascii U query) it = (if ascii_text query then fold_diacritics U t else t)"
    if "get_terms it = Inr (JStr t)" for it t
    using that by (simp add: terms_of_text a)
  show "mset (items_of fb') =
       mset (filter (\<lambda>it. fst (match_res U self query (terms_of U (isascii U query) it)))
               (items_of fb))"
    if "filter_feedback U self fb query = Inr (self', fb')" for self' fb'
    using filter_feedback_mset[OF assms(1) that] by (simp add: item_res_def)
next
  let ?it = "JObj [(u ''match'', JStr [99, 97, 102, 233])]"
  have q: "u ''cafe'' = [99, 97, 102, 101]" by (simp add: u_def)
  have g: "get_terms ?it = Inr (JStr [99, 97, 102, 233])"
    by (simp add: get_terms_def dict_get_def)
  have "isascii U (u ''cafe'')"
    by (simp add: isascii_iff[OF assms(3)] q ascii_text_def)
  then have t: "terms_of U (isascii U (u ''cafe'')) ?it = [99, 97, 102, 101]"
    by (simp add: terms_of_text[OF g] cafe_folded[OF assms(3,4)])
  have "item_res U self (u ''cafe'') ?it = match_res U self (u ''cafe'') [99, 97, 102, 101]"
    by (simp only: item_res_def t)
  then have "fst (item_res U self (u ''cafe'') ?it)"
    by (simp add: match_res_matched q)
  then have s: "map snd (sort_reverse tuple_lt (scored U self (u ''cafe'') [?it])) = [?it]"
    by (simp add: scored_def sort_reverse_def)
  have "list_all text_item [?it]" by (simp add: text_item_def g)
  from filter_feedback_eval[OF assms(1) this, of "u ''cafe''"]
  show "\<exists>self'. filter_feedback U self (feedback [?it]) (u ''cafe'') = Inr (self', feedback [?it])"
    unfolding s .
next
  let ?it = "JObj [(u ''match'', JStr (u ''cafe''))]"
  let ?q = "[99, 97, 102, 233] :: ustring"
  have q: "u ''cafe'' = [99, 97, 102, 101]" by (simp add: u_def)
  have g: "get_terms ?it = Inr (JStr (u ''cafe''))"
    by (simp add: get_terms_def dict_get_def)
  have "\<not> isascii U ?q"
    by (simp add: isascii_iff[OF assms(3)] ascii_text_def)
  then have t: "terms_of U (isascii U ?q) ?it = u ''cafe''"
    by (simp add: terms_of_text[OF g])
  have l: "lower U 99 = 99" "lower U 97 = 97" "lower U 102 = 102" "lower U 101 = 101"
    using assms(2) by (simp_all add: ascii_case_def ascii_lower_def)
  have "item_res U self ?q ?it = match_res U self ?q (u ''cafe'')"
    by (simp only: item_res_def t)
  then have "\<not> fst (item_res U self ?q ?it)"
    using assms(5) by (simp add: match_res_matched q l)
  then have s: "map snd (sort_reverse tuple_lt (scored U self ?q [?it])) = []"
    by (simp add: scored_def sort_reverse_def)
  have "list_all text_item [?it]" by (simp add: text_item_def g)
  from filter_feedback_eval[OF assms(1) this, of ?q]
  show "\<exists>self'. filter_feedback U self (feedback [?it]) ?q = Inr (self', feedback [])"
    unfolding s .
qed

lemma ascii_decomp_sample: "ascii_decomp sample_tables"
  by (simp add: ascii_decomp_def sample_tables_def sample_decomp_def)

theorem filter_feedback_fold_mode_witness:
  "cache_ok sample_tables default_fuzzy \<and> ascii_case sample_tables \<and>
   ascii_decomp sample_tables \<and> decomp sample_tables 233 = [101, 769] \<and>
   lower sample_tables 233 \<noteq> 101 \<and>
   get_terms (JObj [(u ''match'', JStr [99, 97, 102, 233])]) = Inr (JStr [99, 97, 102, 233]) \<and>
   terms_of sample_tables (isascii sample_tables (u ''cafe''))
     (JObj [(u ''match'', JStr [99, 97, 102, 233])]) = u ''cafe'' \<and>
   (\<exists>self'. filter_feedback sample_tables default_fuzzy
        (feedback [JObj [(u ''match'', JStr [99, 97, 102, 233])]]) (u ''cafe'') =
        Inr (self', feedback [JObj [(u ''match'', JStr [99, 97, 102, 233])]])) \<and>
   (\<exists>self'. filter_feedback sample_tables default_fuzzy
        (feedback [JObj [(u ''match'', JStr (u ''cafe''))]]) [99, 97, 102, 233] =
        Inr (self', feedback []))"
proof -
  have d: "decomp sample_tables 233 = [101, 769]"
    by (simp add: sample_tables_def sample_decomp_def)
  have l: "lower sample_tables 233 \<noteq> 101"
    by (simp add: sample_tables_def ascii_lower_def)
  have g: "get_terms (JObj [(u ''match'', JStr [99, 97, 102, 233])]) = Inr (JStr [99, 97, 102, 233])"
    by (simp add: get_terms_def dict_get_def)
  have t: "terms_of sample_tables (isascii sample_tables (u ''cafe''))
     (JObj [(u ''match'', JStr [99, 97, 102, 233])]) = u ''cafe''"
    by code_simp
  from filter_feedback_fold_mode[OF cache_ok_default ascii_case_sample ascii_decomp_sample d l]
    cache_ok_default[of sample_tables] ascii_case_sample ascii_decomp_sample d l g t
  show ?thesis by blast
qed

section \<open>The browser scenario\<close>

text \<open>
  C8, as the specification states it: with the empty query the candidates titled Firefox,
  Safari, Chrome come out as Chrome, Safari, Firefox. They come out as Safari, Chrome,
  Firefox: Safari and Chrome both score \<open>-6\<close>, Safari is first in the input and its record
  is also the greater one.
\<close>

theorem browsers_counterexample:
  "map_sum id snd (filter_feedback sample_tables default_fuzzy
       (feedback (map candidate [''Firefox'', ''Safari'', ''Chrome''])) [])
     \<noteq> Inr (feedback (map candidate [''Chrome'', ''Safari'', ''Firefox'']))"
  by code_simp

text \<open>
  C8, amended. Given candidates that consist of the titles Firefox, Safari, Chrome, in
  that order, and the default weights: filtering with the query \<open>fx\<close> returns exactly
  Firefox, and filtering with the empty query returns all three by descending score
  (ascending title length) as Safari, Chrome, Firefox.
\<close>

theorem browsers:
  assumes "ascii_case U" "ascii_decomp U" "cache_ok U self"
    and "self = default_fuzzy\<lparr>match_cache := m\<rparr>"
  shows "(\<exists>self'. filter_feedback U self
            (feedback (map candidate [''Firefox'', ''Safari'', ''Chrome''])) (u ''fx'') =
            Inr (self', feedback [candidate ''Firefox''])) \<and>
         (\<exists>self'. filter_feedback U self
            (feedback (map candidate [''Firefox'', ''Safari'', ''Chrome''])) (u '''') =
            Inr (self', feedback (map candidate [''Safari'', ''Chrome'', ''Firefox''])))"
proof
  let ?its = "map candidate [''Firefox'', ''Safari'', ''Chrome'']"
  have its: "list_all text_item ?its" by simp
  have a: "ascii_text (u ''fx'')" "ascii_text (u '''')" "ascii_text (u ''Firefox'')"
    "ascii_text (u ''Safari'')" "ascii_text (u ''Chrome'')"
    by (simp_all add: ascii_text_def u_def)
  note ir = item_res_candidate[OF assms(1,2)]
  have fx: "item_res U self (u ''fx'') (candidate ''Firefox'') = (True, 6)"
    "fst (item_res U self (u ''fx'') (candidate ''Safari'')) = False"
    "fst (item_res U self (u ''fx'') (candidate ''Chrome'')) = False"
    unfolding ir[OF a(1) a(3)] ir[OF a(1) a(4)] ir[OF a(1) a(5)] assms(4) match_res_cache
    by code_simp+
  have em: "item_res U self (u '''') (candidate ''Firefox'') = (True, - 7)"
    "item_res U self (u '''') (candidate ''Safari'') = (True, - 6)"
    "item_res U self (u '''') (candidate ''Chrome'') = (True, - 6)"
    unfolding ir[OF a(2) a(3)] ir[OF a(2) a(4)] ir[OF a(2) a(5)] assms(4) match_res_cache
    by code_simp+
  have s1: "map snd (sort_reverse tuple_lt (scored U self (u ''fx'') ?its)) = [candidate ''Firefox'']"
    by (simp add: scored_def fx sort_reverse_def)
  have "map snd (sort_reverse tuple_lt
          [(- 7, candidate ''Firefox''), (- 6, candidate ''Safari''), (- 6, candidate ''Chrome'')])
        = map candidate [''Safari'', ''Chrome'', ''Firefox'']"
    by code_simp
  then have s2: "map snd (sort_reverse tuple_lt (scored U self (u '''') ?its)) =
      map candidate [''Safari'', ''Chrome'', ''Firefox'']"
    by (simp add: scored_def em)
  from filter_feedback_eval[OF assms(3) its, of "u ''fx''"]
  show "\<exists>self'. filter_feedback U self (feedback ?its) (u ''fx'') =
          Inr (self', feedback [candidate ''Firefox''])"
    unfolding s1 .
  from filter_feedback_eval[OF assms(3) its, of "u ''''"]
  show "\<exists>self'. filter_feedback U self (feedback ?its) (u '''') =
          Inr (self', feedback (map candidate [''Safari'', ''Chrome'', ''Firefox'']))"
    unfolding s2 .
qed

theorem browsers_witness:
  "ascii_case sample_tables \<and> ascii_decomp sample_tables \<and>
   cache_ok sample_tables default_fuzzy \<and>
   default_fuzzy = default_fuzzy\<lparr>match_cache := Map.empty\<rparr> \<and>
   (\<exists>self'. filter_feedback sample_tables default_fuzzy
            (feedback (map candidate [''Firefox'', ''Safari'', ''Chrome''])) (u ''fx'') =
            Inr (self', feedback [candidate ''Firefox''])) \<and>
   (\<exists>self'. filter_feedback sample_tables default_fuzzy
            (feedback (map candidate [''Firefox'', ''Safari'', ''Chrome''])) (u '''') =
            Inr (self', feedback (map candidate [''Safari'', ''Chrome'', ''Firefox''])))"
proof -
  have e: "default_fuzzy = default_fuzzy\<lparr>match_cache := Map.empty\<rparr>"
    by (simp add: default_fuzzy_def)
  from browsers[OF ascii_case_sample ascii_decomp_sample cache_ok_default e]
    ascii_case_sample ascii_decomp_sample cache_ok_default[of sample_tables] e
  show ?thesis by blast
qed

section \<open>The session cache: what \<^verbatim>\<open>load\<close> does in each state\<close>

lemma str_nat_nonempty [simp]: "str_nat n \<noteq> []"
  by (subst str_nat.simps) simp

lemma path_join_nonempty: "b \<noteq> [] \<Longrightarrow> path_join a b \<noteq> []"
  by (simp add: path_join_def)

lemma cache_file_nonempty [simp]: "cache_file c tok \<noteq> []"
  by (simp add: cache_file_def path_join_nonempty)

lemma session_id_new:
  "fresh c \<Longrightarrow> token M w = None \<Longrightarrow>
   session_id M c w = (str_nat (getpid w), c\<lparr>session_id_memo := Some (str_nat (getpid w))\<rparr>)"
  by (auto simp: session_id_def fresh_def token_def split: option.splits if_splits)

lemma session_id_resume:
  "fresh c \<Longrightarrow> token M w = Some tok \<Longrightarrow>
   session_id M c w = (tok, c\<lparr>session_id_memo := Some tok, from_cache := True\<rparr>) \<and> tok \<noteq> []"
  by (auto simp: session_id_def fresh_def token_def split: option.splits if_splits)

lemma session_id_memoised:
  "session_id_memo c = Some s \<Longrightarrow> s \<noteq> [] \<Longrightarrow> session_id M c w = (s, c)"
  by (simp add: session_id_def)

lemma cache_path_first:
  assumes "cache_path_memo c = None" "session_id_memo c = Some s" "s \<noteq> []"
  shows "cache_path M c w =
    (if \<not> path_exists w (cache_dir c) \<and> cache_dir c \<in> no_mkdir w then (Inl OSError, c, w)
     else (Inr (cache_file c s), c\<lparr>cache_path_memo := Some (cache_file c s)\<rparr>,
           with_cache_dir c w))"
  using assms
  by (simp add: cache_path_def truthy_def makedirs_def session_id_memoised cache_file_def
      with_cache_dir_def Let_def)

lemma cache_path_memoised:
  "cache_path_memo c = Some p \<Longrightarrow> p \<noteq> [] \<Longrightarrow> cache_path M c w = (Inr p, c, w)"
  by (simp add: cache_path_def truthy_def)

lemma with_cache_dir_memo [simp]:
  "with_cache_dir (c\<lparr>session_id_memo := x\<rparr>) w = with_cache_dir c w"
  "with_cache_dir (c\<lparr>cache_path_memo := y\<rparr>) w = with_cache_dir c w"
  "with_cache_dir (c\<lparr>from_cache := z\<rparr>) w = with_cache_dir c w"
  by (simp_all add: with_cache_dir_def)

lemma cache_file_memo [simp]:
  "cache_file (c\<lparr>session_id_memo := x\<rparr>) t = cache_file c t"
  "cache_file (c\<lparr>cache_path_memo := y\<rparr>) t = cache_file c t"
  "cache_file (c\<lparr>from_cache := z\<rparr>) t = cache_file c t"
  by (simp_all add: cache_file_def)

lemma with_cache_dir_fields [simp]:
  "files (with_cache_dir c w) = files w"
  "no_write (with_cache_dir c w) = no_write w"
  "no_read (with_cache_dir c w) = no_read w"
  "no_mkdir (with_cache_dir c w) = no_mkdir w"
  "invocations (with_cache_dir c w) = invocations w"
  "environ (with_cache_dir c w) = environ w"
  "check_output (with_cache_dir c w) = check_output w"
  "getpid (with_cache_dir c w) = getpid w"
  by (simp_all add: with_cache_dir_def)

lemma path_exists_invocations [simp]:
  "path_exists (w\<lparr>invocations := n\<rparr>) p = path_exists w p"
  by (simp add: path_exists_def)

lemma write_cache_first:
  assumes "cache_path_memo c = None" "session_id_memo c = Some s" "s \<noteq> []"
  shows "write_cache M c w fb =
    (if \<not> path_exists w (cache_dir c) \<and> cache_dir c \<in> no_mkdir w then (Inl OSError, c, w)
     else if cache_file c s \<in> no_write w
     then (Inl IOError, c\<lparr>cache_path_memo := Some (cache_file c s)\<rparr>, with_cache_dir c w)
     else (Inr (), c\<lparr>cache_path_memo := Some (cache_file c s)\<rparr>,
           (with_cache_dir c w)\<lparr>files := (files w)(cache_file c s \<mapsto> json_dumps M fb)\<rparr>))"
  by (simp add: write_cache_def cache_path_first[OF assms])

lemma load_new:
  assumes "fresh c" "token M w = None"
  shows "load M c w =
    (let sid = str_nat (getpid w);
         c0 = c\<lparr>session_id_memo := Some sid\<rparr>;
         w0 = w\<lparr>invocations := invocations w + 1\<rparr>
     in case check_output w (cmd c) of
          Inl e \<Rightarrow> (Inl e, c0, w0)
        | Inr js \<Rightarrow>
           (case json_loads M js of
              None \<Rightarrow> (Inl ValueError, c0, w0)
            | Some fb \<Rightarrow>
               (case count_items fb of
                  Inl e \<Rightarrow> (Inl e, c0, w0)
                | Inr n \<Rightarrow>
                   (case add_session_id M fb sid of
                      Inl e \<Rightarrow> (Inl e, c0, w0)
                    | Inr fb' \<Rightarrow>
                       if \<not> path_exists w (cache_dir c) \<and> cache_dir c \<in> no_mkdir w
                       then (Inl OSError, c0, w0)
                       else if cache_file c sid \<in> no_write w
                       then (Inl IOError, c0\<lparr>cache_path_memo := Some (cache_file c sid)\<rparr>,
                             with_cache_dir c w0)
                       else (Inr fb', c0\<lparr>cache_path_memo := Some (cache_file c sid)\<rparr>,
                             (with_cache_dir c w0)\<lparr>files :=
                                (files w)(cache_file c sid \<mapsto> json_dumps M fb')\<rparr>)))))"
proof -
  define sid where "sid = str_nat (getpid w)"
  define c0 where "c0 = c\<lparr>session_id_memo := Some sid\<rparr>"
  define w0 where "w0 = w\<lparr>invocations := invocations w + 1\<rparr>"
  have s: "session_id M c w = (sid, c0)"
    unfolding sid_def c0_def by (rule session_id_new[OF assms])
  have c0: "\<not> from_cache c0" "cache_path_memo c0 = None" "session_id_memo c0 = Some sid"
    "sid \<noteq> []" "cache_dir c0 = cache_dir c" "cmd c0 = cmd c"
    using assms(1) by (simp_all add: fresh_def c0_def sid_def)
  have w0: "path_exists w0 (cache_dir c) = path_exists w (cache_dir c)"
    "no_mkdir w0 = no_mkdir w" "no_write w0 = no_write w" "files w0 = files w"
    "check_output w0 = check_output w"
    by (simp_all add: w0_def)
  have r: "read_js M c0 w = (check_output w (cmd c), c0, w0)"
    using c0(1,6) by (simp add: read_js_def run_cmd_def w0_def)
  have cf: "cache_file c0 sid = cache_file c sid" "with_cache_dir c0 w0 = with_cache_dir c w0"
    by (simp_all add: c0_def)
  note wc = write_cache_first[OF c0(2,3,4), of M w0, unfolded c0(5) w0 cf]
  have "load M c w =
     (case check_output w (cmd c) of
          Inl e \<Rightarrow> (Inl e, c0, w0)
        | Inr js \<Rightarrow>
           (case json_loads M js of
              None \<Rightarrow> (Inl ValueError, c0, w0)
            | Some fb \<Rightarrow>
               (case count_items fb of
                  Inl e \<Rightarrow> (Inl e, c0, w0)
                | Inr n \<Rightarrow>
                   (case add_session_id M fb sid of
                      Inl e \<Rightarrow> (Inl e, c0, w0)
                    | Inr fb' \<Rightarrow>
                       if \<not> path_exists w (cache_dir c) \<and> cache_dir c \<in> no_mkdir w
                       then (Inl OSError, c0, w0)
                       else if cache_file c sid \<in> no_write w
                       then (Inl IOError, c0\<lparr>cache_path_memo := Some (cache_file c sid)\<rparr>,
                             with_cache_dir c w0)
                       else (Inr fb', c0\<lparr>cache_path_memo := Some (cache_file c sid)\<rparr>,
                             (with_cache_dir c w0)\<lparr>files :=
                                (files w)(cache_file c sid \<mapsto> json_dumps M fb')\<rparr>)))))"
    unfolding load_def s
    by (simp add: r c0(1) wc split: sum.splits option.splits)
  then show ?thesis unfolding Let_def sid_def c0_def w0_def .
qed


lemma load_resume_nodir:
  assumes "fresh c" "token M w = Some tok"
    and "\<not> path_exists w (cache_dir c)" "cache_dir c \<in> no_mkdir w"
  shows "load M c w = (Inl OSError, c\<lparr>session_id_memo := Some tok, from_cache := True\<rparr>, w)"
proof -
  define c0 where "c0 = c\<lparr>session_id_memo := Some tok, from_cache := True\<rparr>"
  have s: "session_id M c w = (tok, c0)" and t: "tok \<noteq> []"
    unfolding c0_def using session_id_resume[OF assms(1,2)] by simp_all
  have c0: "from_cache c0" "cache_path_memo c0 = None" "session_id_memo c0 = Some tok"
    "cache_dir c0 = cache_dir c"
    using assms(1) by (simp_all add: fresh_def c0_def)
  have cp: "cache_path M c0 w = (Inl OSError, c0, w)"
    using assms(3,4) by (simp add: cache_path_first[OF c0(2,3) t] c0(4))
  have "load M c w = (Inl OSError, c0, w)"
    unfolding load_def s by (simp add: read_js_def c0(1) cp)
  then show ?thesis unfolding c0_def .
qed

lemma load_resume_cached:
  assumes "fresh c" "token M w = Some tok"
    and "path_exists w (cache_dir c) \<or> cache_dir c \<notin> no_mkdir w"
    and "path_exists (with_cache_dir c w) (cache_file c tok)"
  shows "load M c w =
    (case files w (cache_file c tok) of
       None \<Rightarrow> (Inl IOError,
                 c\<lparr>session_id_memo := Some tok, from_cache := True,
                    cache_path_memo := Some (cache_file c tok)\<rparr>, with_cache_dir c w)
     | Some js \<Rightarrow>
        if cache_file c tok \<in> no_read w
        then (Inl IOError,
              c\<lparr>session_id_memo := Some tok, from_cache := True,
                 cache_path_memo := Some (cache_file c tok)\<rparr>, with_cache_dir c w)
        else (case json_loads M js of
                None \<Rightarrow> (Inl ValueError,
                   c\<lparr>session_id_memo := Some tok, from_cache := True,
                      cache_path_memo := Some (cache_file c tok)\<rparr>, with_cache_dir c w)
              | Some fb \<Rightarrow>
                 (case count_items fb of
                    Inl e \<Rightarrow> (Inl e,
                       c\<lparr>session_id_memo := Some tok, from_cache := True,
                          cache_path_memo := Some (cache_file c tok)\<rparr>, with_cache_dir c w)
                  | Inr n \<Rightarrow> (Inr fb,
                       c\<lparr>session_id_memo := Some tok, from_cache := True,
                          cache_path_memo := Some (cache_file c tok)\<rparr>, with_cache_dir c w))))"
proof -
  define c0 where "c0 = c\<lparr>session_id_memo := Some tok, from_cache := True\<rparr>"
  define c1 where "c1 = c0\<lparr>cache_path_memo := Some (cache_file c tok)\<rparr>"
  define w1 where "w1 = with_cache_dir c w"
  define f where "f = cache_file c tok"
  have s: "session_id M c w = (tok, c0)" and t: "tok \<noteq> []"
    unfolding c0_def using session_id_resume[OF assms(1,2)] by simp_all
  have c0: "from_cache c0" "cache_path_memo c0 = None" "session_id_memo c0 = Some tok"
    "cache_dir c0 = cache_dir c" "cache_file c0 tok = f" "with_cache_dir c0 w = w1"
    using assms(1) by (simp_all add: fresh_def c0_def f_def w1_def)
  have cp: "cache_path M c0 w = (Inr f, c1, w1)"
    using assms(3) by (auto simp: cache_path_first[OF c0(2,3) t] c0(4,5,6) c1_def f_def)
  have w1: "files w1 = files w" "no_read w1 = no_read w" "path_exists w1 f"
    using assms(4) by (simp_all add: w1_def f_def)
  have c1: "from_cache c1" by (simp add: c1_def c0(1))
  have "load M c w =
    (case files w f of
       None \<Rightarrow> (Inl IOError, c1, w1)
     | Some js \<Rightarrow>
        if f \<in> no_read w then (Inl IOError, c1, w1)
        else (case json_loads M js of
                None \<Rightarrow> (Inl ValueError, c1, w1)
              | Some fb \<Rightarrow>
                 (case count_items fb of
                    Inl e \<Rightarrow> (Inl e, c1, w1)
                  | Inr n \<Rightarrow> (Inr fb, c1, w1))))"
    unfolding load_def s
    by (simp add: read_js_def c0(1) cp w1 c1 split: sum.splits option.splits)
  then show ?thesis unfolding c1_def c0_def w1_def f_def .
qed

lemma load_resume_missing:
  assumes "fresh c" "token M w = Some tok"
    and "path_exists w (cache_dir c) \<or> cache_dir c \<notin> no_mkdir w"
    and "\<not> path_exists (with_cache_dir c w) (cache_file c tok)"
  shows "load M c w =
    (case check_output w (cmd c) of
       Inl e \<Rightarrow> (Inl e,
          c\<lparr>session_id_memo := Some tok, from_cache := True,
             cache_path_memo := Some (cache_file c tok)\<rparr>,
          (with_cache_dir c w)\<lparr>invocations := invocations w + 1\<rparr>)
     | Inr js \<Rightarrow>
        (case json_loads M js of
           None \<Rightarrow> (Inl ValueError,
              c\<lparr>session_id_memo := Some tok, from_cache := True,
                 cache_path_memo := Some (cache_file c tok)\<rparr>,
              (with_cache_dir c w)\<lparr>invocations := invocations w + 1\<rparr>)
         | Some fb \<Rightarrow>
            (case count_items fb of
               Inl e \<Rightarrow> (Inl e,
                  c\<lparr>session_id_memo := Some tok, from_cache := True,
                     cache_path_memo := Some (cache_file c tok)\<rparr>,
                  (with_cache_dir c w)\<lparr>invocations := invocations w + 1\<rparr>)
             | Inr n \<Rightarrow> (Inr fb,
                  c\<lparr>session_id_memo := Some tok, from_cache := True,
                     cache_path_memo := Some (cache_file c tok)\<rparr>,
                  (with_cache_dir c w)\<lparr>invocations := invocations w + 1\<rparr>))))"
proof -
  define c0 where "c0 = c\<lparr>session_id_memo := Some tok, from_cache := True\<rparr>"
  define c1 where "c1 = c0\<lparr>cache_path_memo := Some (cache_file c tok)\<rparr>"
  define w1 where "w1 = with_cache_dir c w"
  define w2 where "w2 = w1\<lparr>invocations := invocations w + 1\<rparr>"
  define f where "f = cache_file c tok"
  have s: "session_id M c w = (tok, c0)" and t: "tok \<noteq> []"
    unfolding c0_def using session_id_resume[OF assms(1,2)] by simp_all
  have c0: "from_cache c0" "cache_path_memo c0 = None" "session_id_memo c0 = Some tok"
    "cache_dir c0 = cache_dir c" "cache_file c0 tok = f" "with_cache_dir c0 w = w1"
    using assms(1) by (simp_all add: fresh_def c0_def f_def w1_def)
  have cp: "cache_path M c0 w = (Inr f, c1, w1)"
    using assms(3) by (auto simp: cache_path_first[OF c0(2,3) t] c0(4,5,6) c1_def f_def)
  have w1: "\<not> path_exists w1 f" "check_output w1 = check_output w"
    "invocations w1 = invocations w"
    using assms(4) by (simp_all add: w1_def f_def)
  have c1: "from_cache c1" "cmd c1 = cmd c" by (simp_all add: c1_def c0_def)
  have r: "read_js M c0 w = (check_output w (cmd c), c1, w2)"
    by (simp add: read_js_def c0(1) cp w1 run_cmd_def c1 w2_def)
  have "load M c w =
    (case check_output w (cmd c) of
       Inl e \<Rightarrow> (Inl e, c1, w2)
     | Inr js \<Rightarrow>
        (case json_loads M js of
           None \<Rightarrow> (Inl ValueError, c1, w2)
         | Some fb \<Rightarrow>
            (case count_items fb of
               Inl e \<Rightarrow> (Inl e, c1, w2)
             | Inr n \<Rightarrow> (Inr fb, c1, w2))))"
    unfolding load_def s
    by (simp add: r c1 split: sum.splits option.splits)
  then show ?thesis unfolding c1_def c0_def w2_def w1_def f_def .
qed

lemma with_cache_dir_exists [simp]: "path_exists w (cache_dir c) \<Longrightarrow> with_cache_dir c w = w"
  by (simp add: with_cache_dir_def)

lemma path_exists_with_cache_dir [simp]: "path_exists (with_cache_dir c w) (cache_dir c)"
  by (simp add: with_cache_dir_def path_exists_def)

lemma dict_keys_differ: "u ''variables'' \<noteq> u ''items''"
  by (simp add: u_def)

lemma add_session_id_result:
  assumes "add_session_id M fb sid = Inr fb'"
  shows "\<exists>d d' vs. fb = JObj d \<and> fb' = JObj d' \<and>
     dict_get d' (u ''variables'') = Some (JObj vs) \<and>
     dict_get vs (u (SID M)) = Some (JStr (u sid)) \<and>
     (\<forall>k. k \<noteq> u ''variables'' \<longrightarrow> dict_get d' k = dict_get d k)"
proof (cases fb)
  case (JObj d)
  show ?thesis
  proof (cases "dict_get d (u ''variables'')")
    case None
    with assms JObj show ?thesis
      by (auto simp: add_session_id_def dict_get_set) (simp add: dict_get_def)
  next
    case (Some v)
    with assms JObj show ?thesis
      by (cases v) (auto simp: add_session_id_def dict_get_set)
  qed
qed (use assms in \<open>simp_all add: add_session_id_def\<close>)

lemma count_items_add_session_id:
  assumes "add_session_id M fb sid = Inr fb'"
  shows "count_items fb' = count_items fb"
proof -
  from add_session_id_result[OF assms] obtain d d' where
    "fb = JObj d" "fb' = JObj d'" "dict_get d' (u ''items'') = dict_get d (u ''items'')"
    using dict_keys_differ by metis
  then show ?thesis by (simp add: count_items_def)
qed

lemma load_cached:
  assumes "fresh c" "token M w = Some tok" "path_exists w (cache_dir c)"
    and "files w (cache_file c tok) = Some js"
  shows "load M c w =
    ((if cache_file c tok \<in> no_read w then Inl IOError
      else case json_loads M js of
             None \<Rightarrow> Inl ValueError
           | Some fb \<Rightarrow> (case count_items fb of Inl e \<Rightarrow> Inl e | Inr n \<Rightarrow> Inr fb)),
     c\<lparr>session_id_memo := Some tok, from_cache := True,
        cache_path_memo := Some (cache_file c tok)\<rparr>,
     w)"
proof -
  have p: "path_exists (with_cache_dir c w) (cache_file c tok)"
    using assms(3,4) by (simp add: path_exists_def)
  show ?thesis
    using assms(3,4)
    by (simp add: load_resume_cached[OF assms(1,2) disjI1[OF assms(3)] p]
        split: option.splits sum.splits)
qed

lemma token_check_output [simp]: "token M (w\<lparr>check_output := p\<rparr>) = token M w"
  by (simp add: token_def)

lemma path_exists_check_output [simp]:
  "path_exists (w\<lparr>check_output := p\<rparr>) q = path_exists w q"
  by (simp add: path_exists_def)

lemma load_new_success:
  assumes "fresh c" "token M w = None" "load M c w = (Inr fb, c1, w1)"
  shows "\<exists>js fb0 n. check_output w (cmd c) = Inr js \<and> json_loads M js = Some fb0 \<and>
     count_items fb0 = Inr n \<and> add_session_id M fb0 (str_nat (getpid w)) = Inr fb \<and>
     w1 = (with_cache_dir c (w\<lparr>invocations := invocations w + 1\<rparr>))
            \<lparr>files := (files w)(cache_file c (str_nat (getpid w)) \<mapsto> json_dumps M fb)\<rparr>"
  using assms(3) unfolding load_new[OF assms(1,2)] Let_def
  by (auto split: sum.splits option.splits if_splits)

lemma fresh_sample: "fresh sample_cache"
  by (simp add: fresh_def sample_cache_def)

lemma path_exists_files_upd:
  "path_exists w p \<Longrightarrow> path_exists (w\<lparr>files := (files w)(f \<mapsto> x)\<rparr>) p"
  by (simp add: path_exists_def)

section \<open>The cache round trip\<close>

text \<open>
  C1. Cache round trip. When a session token is supplied from outside (state Resume), the
  cache directory exists and the cache file of that token exists, \<^verbatim>\<open>load()\<close> reads and
  parses that file and returns what the parse gives, unchanged: the outcome is the outcome
  of reading and parsing, the world is left as it was (the producer has not been run, nothing
  has been written), and the outcome is the same whatever the producer command would do.
  In particular, after a \<^verbatim>\<open>load()\<close> in state New has written the file, a later
  \<^verbatim>\<open>load()\<close> in state Resume with the token of the first one returns the document that
  was written, for every producer, also a failing one, provided the file can be read and the
  JSON library reads back what it wrote.
\<close>

theorem cache_round_trip:
  assumes "fresh c"
  shows "(\<forall>tok js. token M w = Some tok \<and> path_exists w (cache_dir c) \<and>
             files w (cache_file c tok) = Some js \<longrightarrow>
            fst (load M c w) =
              (if cache_file c tok \<in> no_read w then Inl IOError
               else case json_loads M js of
                      None \<Rightarrow> Inl ValueError
                    | Some fb \<Rightarrow> (case count_items fb of Inl e \<Rightarrow> Inl e | Inr n \<Rightarrow> Inr fb)) \<and>
            snd (snd (load M c w)) = w \<and>
            (\<forall>p. fst (load M c (w\<lparr>check_output := p\<rparr>)) = fst (load M c w))) \<and>
         (\<forall>fb c1 w1 c' p pid'.
            token M w = None \<and> load M c w = (Inr fb, c1, w1) \<and>
            json_loads M (json_dumps M fb) = Some fb \<and>
            cache_file c (str_nat (getpid w)) \<notin> no_read w \<and>
            fresh c' \<and> cache_dir c' = cache_dir c \<longrightarrow>
            fst (load M c' (w1\<lparr>environ := (environ w1)(SID M \<mapsto> str_nat (getpid w)),
                               getpid := pid', check_output := p\<rparr>)) = Inr fb \<and>
            snd (snd (load M c' (w1\<lparr>environ := (environ w1)(SID M \<mapsto> str_nat (getpid w)),
                               getpid := pid', check_output := p\<rparr>))) =
              w1\<lparr>environ := (environ w1)(SID M \<mapsto> str_nat (getpid w)),
                 getpid := pid', check_output := p\<rparr>)"
proof (intro conjI allI impI)
  fix tok js
  assume a: "token M w = Some tok \<and> path_exists w (cache_dir c) \<and>
             files w (cache_file c tok) = Some js"
  then have t: "token M w = Some tok" and d: "path_exists w (cache_dir c)"
    and f: "files w (cache_file c tok) = Some js" by simp_all
  note l = load_cached[OF assms t d f]
  show "fst (load M c w) =
              (if cache_file c tok \<in> no_read w then Inl IOError
               else case json_loads M js of
                      None \<Rightarrow> Inl ValueError
                    | Some fb \<Rightarrow> (case count_items fb of Inl e \<Rightarrow> Inl e | Inr n \<Rightarrow> Inr fb))"
    by (simp add: l)
  show "snd (snd (load M c w)) = w" by (simp add: l)
  fix p
  have "load M c (w\<lparr>check_output := p\<rparr>) =
     (fst (load M c w),
      c\<lparr>session_id_memo := Some tok, from_cache := True,
         cache_path_memo := Some (cache_file c tok)\<rparr>, w\<lparr>check_output := p\<rparr>)"
    using t d f by (subst load_cached[OF assms, of M _ tok js]) (simp_all add: l)
  then show "fst (load M c (w\<lparr>check_output := p\<rparr>)) = fst (load M c w)" by simp
next
  fix fb c1 w1 c' p pid'
  assume a: "token M w = None \<and> load M c w = (Inr fb, c1, w1) \<and>
            json_loads M (json_dumps M fb) = Some fb \<and>
            cache_file c (str_nat (getpid w)) \<notin> no_read w \<and>
            fresh c' \<and> cache_dir c' = cache_dir c"
  define sid where "sid = str_nat (getpid w)"
  define w2 where "w2 = w1\<lparr>environ := (environ w1)(SID M \<mapsto> sid),
                               getpid := pid', check_output := p\<rparr>"
  from a have n: "token M w = None" and l: "load M c w = (Inr fb, c1, w1)"
    and rt: "json_loads M (json_dumps M fb) = Some fb"
    and rd: "cache_file c sid \<notin> no_read w"
    and fc: "fresh c'" and cd: "cache_dir c' = cache_dir c"
    by (simp_all add: sid_def)
  from load_new_success[OF assms n l] obtain js fb0 n where
    fb0: "count_items fb0 = Inr n" "add_session_id M fb0 sid = Inr fb"
    and w1: "w1 = (with_cache_dir c (w\<lparr>invocations := invocations w + 1\<rparr>))
            \<lparr>files := (files w)(cache_file c sid \<mapsto> json_dumps M fb)\<rparr>"
    unfolding sid_def by blast
  have ci: "count_items fb = Inr n"
    using count_items_add_session_id[OF fb0(2)] fb0(1) by simp
  have t2: "token M w2 = Some sid"
    by (simp add: token_def w2_def sid_def)
  have cf: "cache_file c' sid = cache_file c sid" by (simp add: cache_file_def cd)
  have "path_exists w1 (cache_dir c)"
    unfolding w1 by (simp add: path_exists_def with_cache_dir_def)
  then have d2: "path_exists w2 (cache_dir c')"
    by (simp add: w2_def path_exists_def cd)
  have f2: "files w2 (cache_file c' sid) = Some (json_dumps M fb)"
    by (simp add: w2_def w1 cf)
  have r2: "cache_file c' sid \<notin> no_read w2"
    using rd by (simp add: w2_def w1 cf)
  note l2 = load_cached[OF fc t2 d2 f2]
  have "fst (load M c' w2) = Inr fb" "snd (snd (load M c' w2)) = w2"
    using r2 by (simp_all add: l2 rt ci)
  then show "fst (load M c' (w1\<lparr>environ := (environ w1)(SID M \<mapsto> str_nat (getpid w)),
                               getpid := pid', check_output := p\<rparr>)) = Inr fb"
    and "snd (snd (load M c' (w1\<lparr>environ := (environ w1)(SID M \<mapsto> str_nat (getpid w)),
                               getpid := pid', check_output := p\<rparr>))) =
              w1\<lparr>environ := (environ w1)(SID M \<mapsto> str_nat (getpid w)),
                 getpid := pid', check_output := p\<rparr>"
    unfolding w2_def sid_def by simp_all
qed

theorem cache_round_trip_witness:
  "fresh sample_cache \<and>
   token sample_module cached_world = Some ''5'' \<and>
   path_exists cached_world (cache_dir sample_cache) \<and>
   files cached_world (cache_file sample_cache ''5'') =
     Some ''{items: [], variables: {fuzzy_session_id: 5}}'' \<and>
   check_output cached_world (cmd sample_cache) = Inl CalledProcessError \<and>
   fst (load sample_module sample_cache cached_world) = Inr doc5 \<and>
   snd (snd (load sample_module sample_cache cached_world)) = cached_world \<and>
   token sample_module sample_world = None \<and>
   fst (load sample_module sample_cache sample_world) = Inr doc5 \<and>
   json_loads sample_module (json_dumps sample_module doc5) = Some doc5 \<and>
   cache_file sample_cache (str_nat (getpid sample_world)) \<notin> no_read sample_world \<and>
   fst (load sample_module sample_cache
     ((snd (snd (load sample_module sample_cache sample_world)))
        \<lparr>environ := (environ (snd (snd (load sample_module sample_cache sample_world))))
                      (SID sample_module \<mapsto> str_nat (getpid sample_world)),
         getpid := 9, check_output := (\<lambda>c. Inl CalledProcessError)\<rparr>)) = Inr doc5"
proof -
  let ?M = sample_module and ?c = sample_cache
  have t: "token ?M cached_world = Some ''5''" by code_simp
  have d: "path_exists cached_world (cache_dir ?c)" by code_simp
  have f: "files cached_world (cache_file ?c ''5'') =
     Some ''{items: [], variables: {fuzzy_session_id: 5}}''" by code_simp
  have p: "check_output cached_world (cmd ?c) = Inl CalledProcessError" by code_simp
  have r: "(if cache_file ?c ''5'' \<in> no_read cached_world then Inl IOError
            else case json_loads ?M ''{items: [], variables: {fuzzy_session_id: 5}}'' of
                   None \<Rightarrow> Inl ValueError
                 | Some fb \<Rightarrow> (case count_items fb of Inl e \<Rightarrow> Inl e | Inr n \<Rightarrow> Inr fb))
           = Inr doc5" by code_simp
  note rt = cache_round_trip[OF fresh_sample, of ?M]
  from rt[of cached_world, THEN conjunct1, rule_format, of "''5''"
      "''{items: [], variables: {fuzzy_session_id: 5}}''"] t d f
  have c1: "fst (load ?M ?c cached_world) = Inr doc5"
    "snd (snd (load ?M ?c cached_world)) = cached_world"
    by (simp_all only: r simp_thms)
  define c1 where "c1 = fst (snd (load ?M ?c sample_world))"
  define w1 where "w1 = snd (snd (load ?M ?c sample_world))"
  have n: "token ?M sample_world = None" by code_simp
  have l0: "fst (load ?M ?c sample_world) = Inr doc5" by code_simp
  have l: "load ?M ?c sample_world = (Inr doc5, c1, w1)"
    unfolding c1_def w1_def l0[symmetric] by simp
  have j: "json_loads ?M (json_dumps ?M doc5) = Some doc5" by code_simp
  have nr: "cache_file ?c (str_nat (getpid sample_world)) \<notin> no_read sample_world"
    by code_simp
  from rt[of sample_world, THEN conjunct2, rule_format, of doc5 c1 w1 ?c
      "\<lambda>c. Inl CalledProcessError" 9] n l j nr fresh_sample
  have c2: "fst (load ?M ?c (w1\<lparr>environ := (environ w1)(SID ?M \<mapsto> str_nat (getpid sample_world)),
         getpid := 9, check_output := (\<lambda>c. Inl CalledProcessError)\<rparr>)) = Inr doc5"
    by simp
  from fresh_sample t d f p c1 n l0 j nr c2[unfolded w1_def] show ?thesis by (intro conjI)
qed

section \<open>Running the producer\<close>

text \<open>
  What \<^verbatim>\<open>load()\<close> does when the producer succeeds and its output parses to a document with
  countable items. In state New, when the session variable can be added and the cache file
  can be created, it runs the producer once, adds the session token (the process id) to the
  variable map of the document under the key \<^verbatim>\<open>SID\<close>, leaving every other entry of the
  document as it is, writes the resulting document to the cache file of the token and
  returns it. In state Resume with a missing cache file it runs the producer once and
  returns the parsed document; \<^verbatim>\<open>_from_cache\<close> is set although nothing came from the
  cache, so the block that adds the session id and writes the file is not run.
\<close>

lemma load_runs_producer:
  assumes "fresh c" "check_output w (cmd c) = Inr js" "json_loads M js = Some fb"
    and "count_items fb = Inr n"
  shows "(\<forall>fb'. token M w = None \<and>
            add_session_id M fb (str_nat (getpid w)) = Inr fb' \<and>
            (path_exists w (cache_dir c) \<or> cache_dir c \<notin> no_mkdir w) \<and>
            cache_file c (str_nat (getpid w)) \<notin> no_write w \<longrightarrow>
            fst (load M c w) = Inr fb' \<and>
            invocations (snd (snd (load M c w))) = invocations w + 1 \<and>
            files (snd (snd (load M c w))) =
              (files w)(cache_file c (str_nat (getpid w)) \<mapsto> json_dumps M fb') \<and>
            path_exists (snd (snd (load M c w))) (cache_dir c) \<and>
            (\<exists>d d' vs. fb = JObj d \<and> fb' = JObj d' \<and>
               dict_get d' (u ''variables'') = Some (JObj vs) \<and>
               dict_get vs (u (SID M)) = Some (JStr (u (str_nat (getpid w)))) \<and>
               (\<forall>k. k \<noteq> u ''variables'' \<longrightarrow> dict_get d' k = dict_get d k))) \<and>
         (\<forall>tok. token M w = Some tok \<and>
            (path_exists w (cache_dir c) \<or> cache_dir c \<notin> no_mkdir w) \<and>
            \<not> path_exists (with_cache_dir c w) (cache_file c tok) \<longrightarrow>
            fst (load M c w) = Inr fb \<and>
            invocations (snd (snd (load M c w))) = invocations w + 1 \<and>
            files (snd (snd (load M c w))) = files w)"
proof (intro conjI allI impI)
  fix fb'
  assume a: "token M w = None \<and>
            add_session_id M fb (str_nat (getpid w)) = Inr fb' \<and>
            (path_exists w (cache_dir c) \<or> cache_dir c \<notin> no_mkdir w) \<and>
            cache_file c (str_nat (getpid w)) \<notin> no_write w"
  then have n: "token M w = None" by simp
  from a have l: "load M c w =
     (Inr fb', c\<lparr>session_id_memo := Some (str_nat (getpid w)),
                 cache_path_memo := Some (cache_file c (str_nat (getpid w)))\<rparr>,
      (with_cache_dir c (w\<lparr>invocations := invocations w + 1\<rparr>))
        \<lparr>files := (files w)(cache_file c (str_nat (getpid w)) \<mapsto> json_dumps M fb')\<rparr>)"
    unfolding load_new[OF assms(1) n] Let_def by (auto simp: assms(2-4))
  show "fst (load M c w) = Inr fb'" by (simp add: l)
  show "invocations (snd (snd (load M c w))) = invocations w + 1"
    by (simp add: l)
  show "files (snd (snd (load M c w))) =
              (files w)(cache_file c (str_nat (getpid w)) \<mapsto> json_dumps M fb')"
    by (simp add: l)
  show "path_exists (snd (snd (load M c w))) (cache_dir c)"
    by (simp add: l path_exists_def with_cache_dir_def)
  from a show "\<exists>d d' vs. fb = JObj d \<and> fb' = JObj d' \<and>
               dict_get d' (u ''variables'') = Some (JObj vs) \<and>
               dict_get vs (u (SID M)) = Some (JStr (u (str_nat (getpid w)))) \<and>
               (\<forall>k. k \<noteq> u ''variables'' \<longrightarrow> dict_get d' k = dict_get d k)"
    by (intro add_session_id_result) simp
next
  fix tok
  assume a: "token M w = Some tok \<and>
            (path_exists w (cache_dir c) \<or> cache_dir c \<notin> no_mkdir w) \<and>
            \<not> path_exists (with_cache_dir c w) (cache_file c tok)"
  then have t: "token M w = Some tok"
    and d: "path_exists w (cache_dir c) \<or> cache_dir c \<notin> no_mkdir w"
    and m: "\<not> path_exists (with_cache_dir c w) (cache_file c tok)" by simp_all
  note l = load_resume_missing[OF assms(1) t d m]
  show "fst (load M c w) = Inr fb" by (simp add: l assms(2-4))
  show "invocations (snd (snd (load M c w))) = invocations w + 1"
    by (simp add: l assms(2-4))
  show "files (snd (snd (load M c w))) = files w" by (simp add: l assms(2-4))
qed

lemma load_runs_producer_sample:
  "fresh sample_cache \<and>
   check_output sample_world (cmd sample_cache) = Inr ''{items: []}'' \<and>
   json_loads sample_module ''{items: []}'' = Some doc0 \<and> count_items doc0 = Inr 0 \<and>
   token sample_module sample_world = None \<and>
   add_session_id sample_module doc0 (str_nat (getpid sample_world)) = Inr doc5 \<and>
   cache_dir sample_cache \<notin> no_mkdir sample_world \<and>
   cache_file sample_cache (str_nat (getpid sample_world)) \<notin> no_write sample_world \<and>
   fst (load sample_module sample_cache sample_world) = Inr doc5 \<and>
   invocations (snd (snd (load sample_module sample_cache sample_world))) = 1 \<and>
   files (snd (snd (load sample_module sample_cache sample_world))) ''/cache/_fuzzy/5.json'' =
     Some ''{items: [], variables: {fuzzy_session_id: 5}}'' \<and>
   check_output resume_world (cmd sample_cache) = Inr ''{items: []}'' \<and>
   token sample_module resume_world = Some ''77'' \<and>
   path_exists resume_world (cache_dir sample_cache) \<and>
   \<not> path_exists (with_cache_dir sample_cache resume_world) (cache_file sample_cache ''77'') \<and>
   fst (load sample_module sample_cache resume_world) = Inr doc0 \<and>
   invocations (snd (snd (load sample_module sample_cache resume_world))) = 1 \<and>
   files (snd (snd (load sample_module sample_cache resume_world))) = files resume_world"
proof -
  let ?M = sample_module and ?c = sample_cache
  have co: "check_output sample_world (cmd ?c) = Inr ''{items: []}''" by code_simp
  have jl: "json_loads ?M ''{items: []}'' = Some doc0" by code_simp
  have ci: "count_items doc0 = Inr 0" by code_simp
  have n: "token ?M sample_world = None" by code_simp
  have a: "add_session_id ?M doc0 (str_nat (getpid sample_world)) = Inr doc5" by code_simp
  have m: "cache_dir ?c \<notin> no_mkdir sample_world" by code_simp
  have nw: "cache_file ?c (str_nat (getpid sample_world)) \<notin> no_write sample_world"
    by code_simp
  have cf: "cache_file ?c (str_nat (getpid sample_world)) = ''/cache/_fuzzy/5.json''"
    by code_simp
  have jd: "json_dumps ?M doc5 = ''{items: [], variables: {fuzzy_session_id: 5}}''"
    by code_simp
  have i0: "invocations sample_world = 0" by code_simp
  from load_runs_producer[OF fresh_sample co jl ci, THEN conjunct1, rule_format, of doc5]
    n a m nw
  have c1: "fst (load ?M ?c sample_world) = Inr doc5"
    "invocations (snd (snd (load ?M ?c sample_world))) = 1"
    "files (snd (snd (load ?M ?c sample_world))) ''/cache/_fuzzy/5.json'' =
       Some ''{items: [], variables: {fuzzy_session_id: 5}}''"
    by (simp_all add: cf jd i0)
  have co2: "check_output resume_world (cmd ?c) = Inr ''{items: []}''" by code_simp
  have t2: "token ?M resume_world = Some ''77''" by code_simp
  have d2: "path_exists resume_world (cache_dir ?c)" by code_simp
  have m2: "\<not> path_exists (with_cache_dir ?c resume_world) (cache_file ?c ''77'')"
    by code_simp
  have i2: "invocations resume_world = 0" by code_simp
  from load_runs_producer[OF fresh_sample co2 jl ci, THEN conjunct2, rule_format, of "''77''"]
    t2 d2 m2
  have c2: "fst (load ?M ?c resume_world) = Inr doc0"
    "invocations (snd (snd (load ?M ?c resume_world))) = 1"
    "files (snd (snd (load ?M ?c resume_world))) = files resume_world"
    by (simp_all add: i2)
  from fresh_sample co jl ci n a m nw c1 co2 t2 d2 m2 c2 show ?thesis by (intro conjI)
qed

text \<open>
  C3. In state Resume with a missing cache file, and in state New, \<^verbatim>\<open>load()\<close> is to run
  the producer, inject the session token into the variable map and write the document to
  the cache file of the token. The code does so in state New only. Run in state Resume
  with the token \<open>77\<close>, an existing cache directory and no cache file: the document comes
  back without the session variable, the cache file still does not exist, and a second
  \<^verbatim>\<open>load()\<close> in the world that the first one leaves runs the producer again. The module
  documents that the script is run once per session to retrieve and cache all items.
\<close>

theorem load_resume_missing_not_cached:
  "token sample_module resume_world = Some ''77'' \<and>
   files resume_world (cache_file sample_cache ''77'') = None \<and>
   fst (load sample_module sample_cache resume_world) = Inr (JObj [(u ''items'', JArr [])]) \<and>
   files (snd (snd (load sample_module sample_cache resume_world)))
     (cache_file sample_cache ''77'') = None \<and>
   invocations (snd (snd (load sample_module sample_cache resume_world))) = 1 \<and>
   invocations (snd (snd (load sample_module sample_cache
     (snd (snd (load sample_module sample_cache resume_world)))))) = 2 \<and>
   files (snd (snd (load sample_module sample_cache
     (snd (snd (load sample_module sample_cache resume_world))))))
     (cache_file sample_cache ''77'') = None"
  by code_simp

section \<open>Failures\<close>

lemma count_items_error_iff:
  "(\<exists>e. count_items fb = Inl e) \<longleftrightarrow>
     (\<forall>d. fb \<noteq> JObj d) \<or>
     (\<exists>d v. fb = JObj d \<and> dict_get d (u ''items'') = Some v \<and>
        (v = JNull \<or> (\<exists>b. v = JBool b) \<or> (\<exists>i. v = JInt i)))"
proof (cases fb)
  case (JObj d)
  show ?thesis
  proof (cases "dict_get d (u ''items'')")
    case None
    with JObj show ?thesis by (simp add: count_items_def)
  next
    case (Some v)
    with JObj show ?thesis by (cases v) (simp_all add: count_items_def)
  qed
qed (simp_all add: count_items_def)

lemma count_items_no_items:
  "dict_get d (u ''items'') = None \<Longrightarrow> count_items (JObj d) = Inr 0"
  by (simp add: count_items_def)

text \<open>
  C9, as the specification states it: every parse failure of producer output or cache
  content is fatal, where the specification counts a document that lacks \<^verbatim>\<open>items\<close> as a
  parse failure. \<^verbatim>\<open>load()\<close> reads the items with \<^verbatim>\<open>fb.get('items', [])\<close>: for a producer
  that prints an object without entries, a \<^verbatim>\<open>load()\<close> in state New returns the document
  with the session variable added and writes the cache file, and a cached object without
  entries is returned as it is.
\<close>

theorem load_missing_items_counterexample:
  "json_loads sample_module2 ''{}'' = Some (JObj []) \<and>
   dict_get [] (u ''items'') = None \<and>
   fst (load sample_module2 sample_cache
         (sample_world\<lparr>check_output := (\<lambda>c. Inr ''{}'')\<rparr>)) = Inr doc_vars5 \<and>
   files (snd (snd (load sample_module2 sample_cache
         (sample_world\<lparr>check_output := (\<lambda>c. Inr ''{}'')\<rparr>)))) ''/cache/_fuzzy/5.json''
     = Some ''{variables: {fuzzy_session_id: 5}}'' \<and>
   fst (load sample_module2 sample_cache
         (cached_world\<lparr>files := [''/cache/_fuzzy/5.json'' \<mapsto> ''{}'']\<rparr>)) = Inr (JObj [])"
  by code_simp

text \<open>
  C9, amended. Every failure ends \<^verbatim>\<open>load()\<close> with the exception and without a document:
  a failure of the producer (non-zero exit or launch failure), in state New and in state
  Resume with a missing cache file; producer output or cache file content that is not
  JSON; a parsed value that is not a dictionary or whose \<^verbatim>\<open>items\<close> are \<^verbatim>\<open>None\<close>, a
  boolean or a number; in state New a \<^verbatim>\<open>variables\<close> entry to which the session id cannot
  be added; a cache directory that cannot be created, in both states; a cache file that
  cannot be created. The producer is never run more than once. When a \<^verbatim>\<open>load()\<close> in
  state New fails because the producer fails, or because its output does not parse or is
  malformed in one of these ways, no file and no directory has been created or changed.
  A document that only lacks \<^verbatim>\<open>items\<close> is not a failure for \<^verbatim>\<open>load()\<close>: it counts as
  having no items and is returned, in state New with the session id added and the cache
  file written.
\<close>

theorem load_failures:
  assumes "fresh c"
  shows "(\<forall>e. token M w = None \<and> check_output w (cmd c) = Inl e \<longrightarrow>
            fst (load M c w) = Inl e \<and>
            files (snd (snd (load M c w))) = files w \<and>
            dirs (snd (snd (load M c w))) = dirs w) \<and>
         (\<forall>js. token M w = None \<and> check_output w (cmd c) = Inr js \<and> json_loads M js = None \<longrightarrow>
            fst (load M c w) = Inl ValueError \<and>
            files (snd (snd (load M c w))) = files w \<and>
            dirs (snd (snd (load M c w))) = dirs w) \<and>
         (\<forall>tok e. token M w = Some tok \<and>
            (path_exists w (cache_dir c) \<or> cache_dir c \<notin> no_mkdir w) \<and>
            \<not> path_exists (with_cache_dir c w) (cache_file c tok) \<and>
            check_output w (cmd c) = Inl e \<longrightarrow>
            fst (load M c w) = Inl e) \<and>
         (\<forall>tok js. token M w = Some tok \<and>
            (path_exists w (cache_dir c) \<or> cache_dir c \<notin> no_mkdir w) \<and>
            \<not> path_exists (with_cache_dir c w) (cache_file c tok) \<and>
            check_output w (cmd c) = Inr js \<and> json_loads M js = None \<longrightarrow>
            fst (load M c w) = Inl ValueError) \<and>
         (\<forall>tok js. token M w = Some tok \<and>
            (path_exists w (cache_dir c) \<or> cache_dir c \<notin> no_mkdir w) \<and>
            files w (cache_file c tok) = Some js \<and> cache_file c tok \<notin> no_read w \<and>
            json_loads M js = None \<longrightarrow>
            fst (load M c w) = Inl ValueError) \<and>
         (\<forall>tok. token M w = Some tok \<and>
            \<not> path_exists w (cache_dir c) \<and> cache_dir c \<in> no_mkdir w \<longrightarrow>
            fst (load M c w) = Inl OSError) \<and>
         (\<forall>js fb n fb'. token M w = None \<and> check_output w (cmd c) = Inr js \<and>
            json_loads M js = Some fb \<and> count_items fb = Inr n \<and>
            add_session_id M fb (str_nat (getpid w)) = Inr fb' \<and>
            \<not> path_exists w (cache_dir c) \<and> cache_dir c \<in> no_mkdir w \<longrightarrow>
            fst (load M c w) = Inl OSError \<and>
            files (snd (snd (load M c w))) = files w) \<and>
         (\<forall>js fb n fb'. token M w = None \<and> check_output w (cmd c) = Inr js \<and>
            json_loads M js = Some fb \<and> count_items fb = Inr n \<and>
            add_session_id M fb (str_nat (getpid w)) = Inr fb' \<and>
            (path_exists w (cache_dir c) \<or> cache_dir c \<notin> no_mkdir w) \<and>
            cache_file c (str_nat (getpid w)) \<in> no_write w \<longrightarrow>
            fst (load M c w) = Inl IOError \<and>
            files (snd (snd (load M c w))) = files w) \<and>
         invocations (snd (snd (load M c w))) \<le> invocations w + 1 \<and>
         (\<forall>js fb e. token M w = None \<and> check_output w (cmd c) = Inr js \<and>
            json_loads M js = Some fb \<and> count_items fb = Inl e \<longrightarrow>
            fst (load M c w) = Inl e \<and>
            files (snd (snd (load M c w))) = files w \<and>
            dirs (snd (snd (load M c w))) = dirs w) \<and>
         (\<forall>js fb n e. token M w = None \<and> check_output w (cmd c) = Inr js \<and>
            json_loads M js = Some fb \<and> count_items fb = Inr n \<and>
            add_session_id M fb (str_nat (getpid w)) = Inl e \<longrightarrow>
            fst (load M c w) = Inl e \<and>
            files (snd (snd (load M c w))) = files w \<and>
            dirs (snd (snd (load M c w))) = dirs w) \<and>
         (\<forall>tok js fb e. token M w = Some tok \<and>
            (path_exists w (cache_dir c) \<or> cache_dir c \<notin> no_mkdir w) \<and>
            files w (cache_file c tok) = Some js \<and> cache_file c tok \<notin> no_read w \<and>
            json_loads M js = Some fb \<and> count_items fb = Inl e \<longrightarrow>
            fst (load M c w) = Inl e) \<and>
         (\<forall>tok js fb e. token M w = Some tok \<and>
            (path_exists w (cache_dir c) \<or> cache_dir c \<notin> no_mkdir w) \<and>
            \<not> path_exists (with_cache_dir c w) (cache_file c tok) \<and>
            check_output w (cmd c) = Inr js \<and> json_loads M js = Some fb \<and>
            count_items fb = Inl e \<longrightarrow>
            fst (load M c w) = Inl e) \<and>
         (\<forall>fb. (\<exists>e. count_items fb = Inl e) \<longleftrightarrow>
            (\<forall>d. fb \<noteq> JObj d) \<or>
            (\<exists>d v. fb = JObj d \<and> dict_get d (u ''items'') = Some v \<and>
               (v = JNull \<or> (\<exists>b. v = JBool b) \<or> (\<exists>i. v = JInt i)))) \<and>
         (\<forall>tok js d. token M w = Some tok \<and>
            (path_exists w (cache_dir c) \<or> cache_dir c \<notin> no_mkdir w) \<and>
            files w (cache_file c tok) = Some js \<and> cache_file c tok \<notin> no_read w \<and>
            json_loads M js = Some (JObj d) \<and> dict_get d (u ''items'') = None \<longrightarrow>
            fst (load M c w) = Inr (JObj d)) \<and>
         (\<forall>js d fb'. token M w = None \<and> check_output w (cmd c) = Inr js \<and>
            json_loads M js = Some (JObj d) \<and> dict_get d (u ''items'') = None \<and>
            add_session_id M (JObj d) (str_nat (getpid w)) = Inr fb' \<and>
            (path_exists w (cache_dir c) \<or> cache_dir c \<notin> no_mkdir w) \<and>
            cache_file c (str_nat (getpid w)) \<notin> no_write w \<longrightarrow>
            fst (load M c w) = Inr fb' \<and>
            files (snd (snd (load M c w))) =
              (files w)(cache_file c (str_nat (getpid w)) \<mapsto> json_dumps M fb'))"
proof (intro conjI allI impI)
  fix e
  assume a: "token M w = None \<and> check_output w (cmd c) = Inl e"
  then have n: "token M w = None" by simp
  from a show "fst (load M c w) = Inl e" "files (snd (snd (load M c w))) = files w"
    "dirs (snd (snd (load M c w))) = dirs w"
    unfolding load_new[OF assms n] Let_def by simp_all
next
  fix js
  assume a: "token M w = None \<and> check_output w (cmd c) = Inr js \<and> json_loads M js = None"
  then have n: "token M w = None" by simp
  from a show "fst (load M c w) = Inl ValueError" "files (snd (snd (load M c w))) = files w"
    "dirs (snd (snd (load M c w))) = dirs w"
    unfolding load_new[OF assms n] Let_def by simp_all
next
  fix tok e
  assume a: "token M w = Some tok \<and>
            (path_exists w (cache_dir c) \<or> cache_dir c \<notin> no_mkdir w) \<and>
            \<not> path_exists (with_cache_dir c w) (cache_file c tok) \<and>
            check_output w (cmd c) = Inl e"
  then have "load M c w = (Inl e,
          c\<lparr>session_id_memo := Some tok, from_cache := True,
             cache_path_memo := Some (cache_file c tok)\<rparr>,
          (with_cache_dir c w)\<lparr>invocations := invocations w + 1\<rparr>)"
    by (subst load_resume_missing[OF assms, of M w tok]) simp_all
  then show "fst (load M c w) = Inl e" by simp
next
  fix tok js
  assume a: "token M w = Some tok \<and>
            (path_exists w (cache_dir c) \<or> cache_dir c \<notin> no_mkdir w) \<and>
            \<not> path_exists (with_cache_dir c w) (cache_file c tok) \<and>
            check_output w (cmd c) = Inr js \<and> json_loads M js = None"
  then have "load M c w = (Inl ValueError,
          c\<lparr>session_id_memo := Some tok, from_cache := True,
             cache_path_memo := Some (cache_file c tok)\<rparr>,
          (with_cache_dir c w)\<lparr>invocations := invocations w + 1\<rparr>)"
    by (subst load_resume_missing[OF assms, of M w tok]) simp_all
  then show "fst (load M c w) = Inl ValueError" by simp
next
  fix tok js
  assume a: "token M w = Some tok \<and>
            (path_exists w (cache_dir c) \<or> cache_dir c \<notin> no_mkdir w) \<and>
            files w (cache_file c tok) = Some js \<and> cache_file c tok \<notin> no_read w \<and>
            json_loads M js = None"
  then have p: "path_exists (with_cache_dir c w) (cache_file c tok)"
    by (simp add: path_exists_def)
  from a have "load M c w = (Inl ValueError,
          c\<lparr>session_id_memo := Some tok, from_cache := True,
             cache_path_memo := Some (cache_file c tok)\<rparr>, with_cache_dir c w)"
    by (subst load_resume_cached[OF assms _ _ p]) simp_all
  then show "fst (load M c w) = Inl ValueError" by simp
next
  fix tok
  assume "token M w = Some tok \<and> \<not> path_exists w (cache_dir c) \<and> cache_dir c \<in> no_mkdir w"
  then show "fst (load M c w) = Inl OSError"
    by (simp add: load_resume_nodir[OF assms])
next
  fix js fb n fb'
  assume a: "token M w = None \<and> check_output w (cmd c) = Inr js \<and>
            json_loads M js = Some fb \<and> count_items fb = Inr n \<and>
            add_session_id M fb (str_nat (getpid w)) = Inr fb' \<and>
            \<not> path_exists w (cache_dir c) \<and> cache_dir c \<in> no_mkdir w"
  then have n: "token M w = None" by simp
  from a show "fst (load M c w) = Inl OSError" "files (snd (snd (load M c w))) = files w"
    unfolding load_new[OF assms n] Let_def by simp_all
next
  fix js fb n fb'
  assume a: "token M w = None \<and> check_output w (cmd c) = Inr js \<and>
            json_loads M js = Some fb \<and> count_items fb = Inr n \<and>
            add_session_id M fb (str_nat (getpid w)) = Inr fb' \<and>
            (path_exists w (cache_dir c) \<or> cache_dir c \<notin> no_mkdir w) \<and>
            cache_file c (str_nat (getpid w)) \<in> no_write w"
  then have n: "token M w = None" by simp
  from a show "fst (load M c w) = Inl IOError" "files (snd (snd (load M c w))) = files w"
    unfolding load_new[OF assms n] Let_def by auto
next
  show "invocations (snd (snd (load M c w))) \<le> invocations w + 1"
  proof (cases "token M w")
    case None
    show ?thesis
      unfolding load_new[OF assms None] Let_def
      by (simp split: sum.splits option.splits)
  next
    case (Some tok)
    show ?thesis
    proof (cases "path_exists w (cache_dir c) \<or> cache_dir c \<notin> no_mkdir w")
      case False
      then show ?thesis by (simp add: load_resume_nodir[OF assms Some])
    next
      case d: True
      show ?thesis
      proof (cases "path_exists (with_cache_dir c w) (cache_file c tok)")
        case True
        show ?thesis
          unfolding load_resume_cached[OF assms Some d True]
          by (simp split: sum.splits option.splits)
      next
        case False
        show ?thesis
          unfolding load_resume_missing[OF assms Some d False]
          by (simp split: sum.splits option.splits)
      qed
    qed
  qed
next
  fix js fb e
  assume a: "token M w = None \<and> check_output w (cmd c) = Inr js \<and>
            json_loads M js = Some fb \<and> count_items fb = Inl e"
  then have n: "token M w = None" by simp
  from a show "fst (load M c w) = Inl e" "files (snd (snd (load M c w))) = files w"
    "dirs (snd (snd (load M c w))) = dirs w"
    unfolding load_new[OF assms n] Let_def by simp_all
next
  fix js fb n e
  assume a: "token M w = None \<and> check_output w (cmd c) = Inr js \<and>
            json_loads M js = Some fb \<and> count_items fb = Inr n \<and>
            add_session_id M fb (str_nat (getpid w)) = Inl e"
  then have n: "token M w = None" by simp
  from a show "fst (load M c w) = Inl e" "files (snd (snd (load M c w))) = files w"
    "dirs (snd (snd (load M c w))) = dirs w"
    unfolding load_new[OF assms n] Let_def by simp_all
next
  fix tok js fb e
  assume a: "token M w = Some tok \<and>
            (path_exists w (cache_dir c) \<or> cache_dir c \<notin> no_mkdir w) \<and>
            files w (cache_file c tok) = Some js \<and> cache_file c tok \<notin> no_read w \<and>
            json_loads M js = Some fb \<and> count_items fb = Inl e"
  then have p: "path_exists (with_cache_dir c w) (cache_file c tok)"
    by (simp add: path_exists_def)
  from a have "load M c w = (Inl e,
          c\<lparr>session_id_memo := Some tok, from_cache := True,
             cache_path_memo := Some (cache_file c tok)\<rparr>, with_cache_dir c w)"
    by (subst load_resume_cached[OF assms _ _ p]) simp_all
  then show "fst (load M c w) = Inl e" by simp
next
  fix tok js fb e
  assume a: "token M w = Some tok \<and>
            (path_exists w (cache_dir c) \<or> cache_dir c \<notin> no_mkdir w) \<and>
            \<not> path_exists (with_cache_dir c w) (cache_file c tok) \<and>
            check_output w (cmd c) = Inr js \<and> json_loads M js = Some fb \<and>
            count_items fb = Inl e"
  then have "load M c w = (Inl e,
          c\<lparr>session_id_memo := Some tok, from_cache := True,
             cache_path_memo := Some (cache_file c tok)\<rparr>,
          (with_cache_dir c w)\<lparr>invocations := invocations w + 1\<rparr>)"
    by (subst load_resume_missing[OF assms, of M w tok]) simp_all
  then show "fst (load M c w) = Inl e" by simp
next
  fix fb
  show "(\<exists>e. count_items fb = Inl e) \<longleftrightarrow>
            (\<forall>d. fb \<noteq> JObj d) \<or>
            (\<exists>d v. fb = JObj d \<and> dict_get d (u ''items'') = Some v \<and>
               (v = JNull \<or> (\<exists>b. v = JBool b) \<or> (\<exists>i. v = JInt i)))"
    by (rule count_items_error_iff)
next
  fix tok js d
  assume a: "token M w = Some tok \<and>
            (path_exists w (cache_dir c) \<or> cache_dir c \<notin> no_mkdir w) \<and>
            files w (cache_file c tok) = Some js \<and> cache_file c tok \<notin> no_read w \<and>
            json_loads M js = Some (JObj d) \<and> dict_get d (u ''items'') = None"
  then have p: "path_exists (with_cache_dir c w) (cache_file c tok)"
    by (simp add: path_exists_def)
  from a have ci: "count_items (JObj d) = Inr 0" by (simp add: count_items_no_items)
  from a have "load M c w = (Inr (JObj d),
          c\<lparr>session_id_memo := Some tok, from_cache := True,
             cache_path_memo := Some (cache_file c tok)\<rparr>, with_cache_dir c w)"
    by (subst load_resume_cached[OF assms _ _ p]) (simp_all add: ci)
  then show "fst (load M c w) = Inr (JObj d)" by simp
next
  fix js d fb'
  assume a: "token M w = None \<and> check_output w (cmd c) = Inr js \<and>
            json_loads M js = Some (JObj d) \<and> dict_get d (u ''items'') = None \<and>
            add_session_id M (JObj d) (str_nat (getpid w)) = Inr fb' \<and>
            (path_exists w (cache_dir c) \<or> cache_dir c \<notin> no_mkdir w) \<and>
            cache_file c (str_nat (getpid w)) \<notin> no_write w"
  then have n: "token M w = None" by simp
  from a have ci: "count_items (JObj d) = Inr 0" by (simp add: count_items_no_items)
  from a show "fst (load M c w) = Inr fb'"
    "files (snd (snd (load M c w))) =
              (files w)(cache_file c (str_nat (getpid w)) \<mapsto> json_dumps M fb')"
    unfolding load_new[OF assms n] Let_def by (auto simp: ci)
qed

theorem load_failures_witness:
  "fresh sample_cache \<and>
   token sample_module (sample_world\<lparr>check_output := (\<lambda>c. Inl CalledProcessError)\<rparr>) = None \<and>
   fst (load sample_module sample_cache
     (sample_world\<lparr>check_output := (\<lambda>c. Inl CalledProcessError)\<rparr>)) = Inl CalledProcessError \<and>
   files (snd (snd (load sample_module sample_cache
     (sample_world\<lparr>check_output := (\<lambda>c. Inl CalledProcessError)\<rparr>)))) = Map.empty \<and>
   json_loads sample_module ''<html>'' = None \<and>
   fst (load sample_module sample_cache
     (sample_world\<lparr>check_output := (\<lambda>c. Inr ''<html>'')\<rparr>)) = Inl ValueError \<and>
   files (snd (snd (load sample_module sample_cache
     (sample_world\<lparr>check_output := (\<lambda>c. Inr ''<html>'')\<rparr>)))) = Map.empty \<and>
   token sample_module (resume_world\<lparr>check_output := (\<lambda>c. Inl OSError)\<rparr>) = Some ''77'' \<and>
   fst (load sample_module sample_cache
     (resume_world\<lparr>check_output := (\<lambda>c. Inl OSError)\<rparr>)) = Inl OSError \<and>
   fst (load sample_module sample_cache
     (resume_world\<lparr>check_output := (\<lambda>c. Inr ''<html>'')\<rparr>)) = Inl ValueError \<and>
   files (cached_world\<lparr>files := [''/cache/_fuzzy/5.json'' \<mapsto> ''<html>'']\<rparr>)
     (cache_file sample_cache ''5'') = Some ''<html>'' \<and>
   fst (load sample_module sample_cache
     (cached_world\<lparr>files := [''/cache/_fuzzy/5.json'' \<mapsto> ''<html>'']\<rparr>)) = Inl ValueError \<and>
   cache_dir sample_cache \<in> no_mkdir (cached_world\<lparr>dirs := {}, files := Map.empty,
        no_mkdir := {''/cache/_fuzzy''}\<rparr>) \<and>
   fst (load sample_module sample_cache
     (cached_world\<lparr>dirs := {}, files := Map.empty, no_mkdir := {''/cache/_fuzzy''}\<rparr>))
     = Inl OSError \<and>
   fst (load sample_module sample_cache
     (sample_world\<lparr>no_mkdir := {''/cache/_fuzzy''}\<rparr>)) = Inl OSError \<and>
   cache_file sample_cache (str_nat (getpid sample_world)) \<in>
     no_write (sample_world\<lparr>no_write := {''/cache/_fuzzy/5.json''}\<rparr>) \<and>
   fst (load sample_module sample_cache
     (sample_world\<lparr>no_write := {''/cache/_fuzzy/5.json''}\<rparr>)) = Inl IOError \<and>
   files (snd (snd (load sample_module sample_cache
     (sample_world\<lparr>no_write := {''/cache/_fuzzy/5.json''}\<rparr>)))) = Map.empty \<and>
   invocations (snd (snd (load sample_module sample_cache sample_world))) \<le> 1 \<and>
   json_loads sample_module2 ''[]'' = Some (JArr []) \<and>
   fst (load sample_module2 sample_cache
     (sample_world\<lparr>check_output := (\<lambda>c. Inr ''[]'')\<rparr>)) = Inl AttributeError \<and>
   files (snd (snd (load sample_module2 sample_cache
     (sample_world\<lparr>check_output := (\<lambda>c. Inr ''[]'')\<rparr>)))) = Map.empty \<and>
   json_loads sample_module2 ''{items: [], variables: 1}''
     = Some (JObj [(u ''items'', JArr []), (u ''variables'', JInt 1)]) \<and>
   fst (load sample_module2 sample_cache
     (sample_world\<lparr>check_output := (\<lambda>c. Inr ''{items: [], variables: 1}'')\<rparr>))
     = Inl TypeError \<and>
   files (snd (snd (load sample_module2 sample_cache
     (sample_world\<lparr>check_output := (\<lambda>c. Inr ''{items: [], variables: 1}'')\<rparr>))))
     = Map.empty \<and>
   fst (load sample_module2 sample_cache
     (cached_world\<lparr>files := [''/cache/_fuzzy/5.json'' \<mapsto> ''[]'']\<rparr>)) = Inl AttributeError \<and>
   json_loads sample_module2 ''{items: 3}'' = Some (JObj [(u ''items'', JInt 3)]) \<and>
   fst (load sample_module2 sample_cache
     (resume_world\<lparr>check_output := (\<lambda>c. Inr ''{items: 3}'')\<rparr>)) = Inl TypeError \<and>
   (\<exists>e. count_items (JArr []) = Inl e) \<and>
   json_loads sample_module2 ''{}'' = Some (JObj []) \<and>
   fst (load sample_module2 sample_cache
     (cached_world\<lparr>files := [''/cache/_fuzzy/5.json'' \<mapsto> ''{}'']\<rparr>)) = Inr (JObj []) \<and>
   fst (load sample_module2 sample_cache
     (sample_world\<lparr>check_output := (\<lambda>c. Inr ''{}'')\<rparr>)) = Inr doc_vars5 \<and>
   files (snd (snd (load sample_module2 sample_cache
     (sample_world\<lparr>check_output := (\<lambda>c. Inr ''{}'')\<rparr>)))) ''/cache/_fuzzy/5.json''
     = Some ''{variables: {fuzzy_session_id: 5}}''"
proof -
  let ?M = sample_module and ?c = sample_cache
  note lf = load_failures[OF fresh_sample, of ?M]
  let ?w1 = "sample_world\<lparr>check_output := (\<lambda>c. Inl CalledProcessError)\<rparr>"
  have n1: "token ?M ?w1 = None" by code_simp
  have o1: "check_output ?w1 (cmd ?c) = Inl CalledProcessError" by code_simp
  have f1: "files ?w1 = Map.empty" by (simp add: sample_world_def)
  from lf[of ?w1, THEN conjunct1, rule_format, of CalledProcessError] n1 o1
  have c1: "fst (load ?M ?c ?w1) = Inl CalledProcessError"
    "files (snd (snd (load ?M ?c ?w1))) = Map.empty"
    by (simp_all add: f1)
  let ?w2 = "sample_world\<lparr>check_output := (\<lambda>c. Inr ''<html>'')\<rparr>"
  have n2: "token ?M ?w2 = None" by code_simp
  have o2: "check_output ?w2 (cmd ?c) = Inr ''<html>''" by code_simp
  have j: "json_loads ?M ''<html>'' = None" by code_simp
  have f2: "files ?w2 = Map.empty" by (simp add: sample_world_def)
  from lf[of ?w2, THEN conjunct2, THEN conjunct1, rule_format, of "''<html>''"] n2 o2 j
  have c2: "fst (load ?M ?c ?w2) = Inl ValueError"
    "files (snd (snd (load ?M ?c ?w2))) = Map.empty"
    by (simp_all add: f2)
  let ?w3 = "resume_world\<lparr>check_output := (\<lambda>c. Inl OSError)\<rparr>"
  have t3: "token ?M ?w3 = Some ''77''" by code_simp
  have d3: "path_exists ?w3 (cache_dir ?c)" by code_simp
  have m3: "\<not> path_exists (with_cache_dir ?c ?w3) (cache_file ?c ''77'')" by code_simp
  have o3: "check_output ?w3 (cmd ?c) = Inl OSError" by code_simp
  from lf[of ?w3, THEN conjunct2, THEN conjunct2, THEN conjunct1, rule_format,
      of "''77''" OSError] t3 d3 m3 o3
  have c3: "fst (load ?M ?c ?w3) = Inl OSError" by simp
  let ?w4 = "resume_world\<lparr>check_output := (\<lambda>c. Inr ''<html>'')\<rparr>"
  have t4: "token ?M ?w4 = Some ''77''" by code_simp
  have d4: "path_exists ?w4 (cache_dir ?c)" by code_simp
  have m4: "\<not> path_exists (with_cache_dir ?c ?w4) (cache_file ?c ''77'')" by code_simp
  have o4: "check_output ?w4 (cmd ?c) = Inr ''<html>''" by code_simp
  from lf[of ?w4, THEN conjunct2, THEN conjunct2, THEN conjunct2, THEN conjunct1, rule_format,
      of "''77''" "''<html>''"] t4 d4 m4 o4 j
  have c4: "fst (load ?M ?c ?w4) = Inl ValueError" by simp
  let ?w5 = "cached_world\<lparr>files := [''/cache/_fuzzy/5.json'' \<mapsto> ''<html>'']\<rparr>"
  have t5: "token ?M ?w5 = Some ''5''" by code_simp
  have d5: "path_exists ?w5 (cache_dir ?c)" by code_simp
  have f5: "files ?w5 (cache_file ?c ''5'') = Some ''<html>''" by code_simp
  have r5: "cache_file ?c ''5'' \<notin> no_read ?w5" by code_simp
  from lf[of ?w5, THEN conjunct2, THEN conjunct2, THEN conjunct2, THEN conjunct2,
      THEN conjunct1, rule_format, of "''5''" "''<html>''"] t5 d5 f5 r5 j
  have c5: "fst (load ?M ?c ?w5) = Inl ValueError" by simp
  let ?w6 = "cached_world\<lparr>dirs := {}, files := Map.empty, no_mkdir := {''/cache/_fuzzy''}\<rparr>"
  have t6: "token ?M ?w6 = Some ''5''" by code_simp
  have d6: "\<not> path_exists ?w6 (cache_dir ?c)" by code_simp
  have k6: "cache_dir ?c \<in> no_mkdir ?w6" by code_simp
  from lf[of ?w6, THEN conjunct2, THEN conjunct2, THEN conjunct2, THEN conjunct2,
      THEN conjunct2, THEN conjunct1, rule_format, of "''5''"] t6 d6 k6
  have c6: "fst (load ?M ?c ?w6) = Inl OSError" by simp
  let ?w7 = "sample_world\<lparr>no_mkdir := {''/cache/_fuzzy''}\<rparr>"
  have n7: "token ?M ?w7 = None" by code_simp
  have o7: "check_output ?w7 (cmd ?c) = Inr ''{items: []}''" by code_simp
  have jl: "json_loads ?M ''{items: []}'' = Some doc0" by code_simp
  have ci: "count_items doc0 = Inr 0" by code_simp
  have a7: "add_session_id ?M doc0 (str_nat (getpid ?w7)) = Inr doc5" by code_simp
  have d7: "\<not> path_exists ?w7 (cache_dir ?c)" by code_simp
  have k7: "cache_dir ?c \<in> no_mkdir ?w7" by code_simp
  from lf[of ?w7, THEN conjunct2, THEN conjunct2, THEN conjunct2, THEN conjunct2,
      THEN conjunct2, THEN conjunct2, THEN conjunct1, rule_format,
      of "''{items: []}''" doc0 0 doc5] n7 o7 jl ci a7 d7 k7
  have c7: "fst (load ?M ?c ?w7) = Inl OSError" by simp
  let ?w8 = "sample_world\<lparr>no_write := {''/cache/_fuzzy/5.json''}\<rparr>"
  have n8: "token ?M ?w8 = None" by code_simp
  have o8: "check_output ?w8 (cmd ?c) = Inr ''{items: []}''" by code_simp
  have a8: "add_session_id ?M doc0 (str_nat (getpid ?w8)) = Inr doc5" by code_simp
  have d8: "cache_dir ?c \<notin> no_mkdir ?w8" by code_simp
  have k8: "cache_file ?c (str_nat (getpid ?w8)) \<in> no_write ?w8" by code_simp
  have k8': "cache_file ?c (str_nat (getpid sample_world)) \<in> no_write ?w8" by code_simp
  have f8: "files ?w8 = Map.empty" by (simp add: sample_world_def)
  from lf[of ?w8, THEN conjunct2, THEN conjunct2, THEN conjunct2, THEN conjunct2,
      THEN conjunct2, THEN conjunct2, THEN conjunct2, THEN conjunct1, rule_format,
      of "''{items: []}''" doc0 0 doc5] n8 o8 jl ci a8 d8 k8
  have c8: "fst (load ?M ?c ?w8) = Inl IOError"
    "files (snd (snd (load ?M ?c ?w8))) = Map.empty"
    by (simp_all add: f8)
  have i0: "invocations sample_world = 0" by code_simp
  from lf[of sample_world, THEN conjunct2, THEN conjunct2, THEN conjunct2, THEN conjunct2,
      THEN conjunct2, THEN conjunct2, THEN conjunct2, THEN conjunct2, THEN conjunct1]
  have c9: "invocations (snd (snd (load ?M ?c sample_world))) \<le> 1" by (simp add: i0)
  let ?N = sample_module2
  note lg = load_failures[OF fresh_sample, of ?N]
  let ?w10 = "sample_world\<lparr>check_output := (\<lambda>c. Inr ''[]'')\<rparr>"
  have n10: "token ?N ?w10 = None" by code_simp
  have o10: "check_output ?w10 (cmd ?c) = Inr ''[]''" by code_simp
  have j10: "json_loads ?N ''[]'' = Some (JArr [])" by code_simp
  have e10: "count_items (JArr []) = Inl AttributeError" by code_simp
  have f10: "files ?w10 = Map.empty" by (simp add: sample_world_def)
  from lg[of ?w10, THEN conjunct2, THEN conjunct2, THEN conjunct2, THEN conjunct2,
      THEN conjunct2, THEN conjunct2, THEN conjunct2, THEN conjunct2,
      THEN conjunct2, THEN conjunct1, rule_format,
      of "''[]''" "JArr []" AttributeError] n10 o10 j10 e10
  have c10: "fst (load ?N ?c ?w10) = Inl AttributeError"
    "files (snd (snd (load ?N ?c ?w10))) = Map.empty"
    by (simp_all add: f10)
  let ?w11 = "sample_world\<lparr>check_output := (\<lambda>c. Inr ''{items: [], variables: 1}'')\<rparr>"
  let ?d11 = "JObj [(u ''items'', JArr []), (u ''variables'', JInt 1)]"
  have n11: "token ?N ?w11 = None" by code_simp
  have o11: "check_output ?w11 (cmd ?c) = Inr ''{items: [], variables: 1}''" by code_simp
  have j11: "json_loads ?N ''{items: [], variables: 1}'' = Some ?d11" by code_simp
  have i11: "count_items ?d11 = Inr 0" by code_simp
  have e11: "add_session_id ?N ?d11 (str_nat (getpid ?w11)) = Inl TypeError" by code_simp
  have f11: "files ?w11 = Map.empty" by (simp add: sample_world_def)
  from lg[of ?w11, THEN conjunct2, THEN conjunct2, THEN conjunct2, THEN conjunct2,
      THEN conjunct2, THEN conjunct2, THEN conjunct2, THEN conjunct2,
      THEN conjunct2, THEN conjunct2, THEN conjunct1, rule_format,
      of "''{items: [], variables: 1}''" ?d11 0 TypeError] n11 o11 j11 i11 e11
  have c11: "fst (load ?N ?c ?w11) = Inl TypeError"
    "files (snd (snd (load ?N ?c ?w11))) = Map.empty"
    by (simp_all add: f11)
  let ?w12 = "cached_world\<lparr>files := [''/cache/_fuzzy/5.json'' \<mapsto> ''[]'']\<rparr>"
  have t12: "token ?N ?w12 = Some ''5''" by code_simp
  have d12: "path_exists ?w12 (cache_dir ?c)" by code_simp
  have f12: "files ?w12 (cache_file ?c ''5'') = Some ''[]''" by code_simp
  have r12: "cache_file ?c ''5'' \<notin> no_read ?w12" by code_simp
  from lg[of ?w12, THEN conjunct2, THEN conjunct2, THEN conjunct2, THEN conjunct2,
      THEN conjunct2, THEN conjunct2, THEN conjunct2, THEN conjunct2,
      THEN conjunct2, THEN conjunct2, THEN conjunct2, THEN conjunct1, rule_format,
      of "''5''" "''[]''" "JArr []" AttributeError] t12 d12 f12 r12 j10 e10
  have c12: "fst (load ?N ?c ?w12) = Inl AttributeError" by simp
  let ?w13 = "resume_world\<lparr>check_output := (\<lambda>c. Inr ''{items: 3}'')\<rparr>"
  let ?d13 = "JObj [(u ''items'', JInt 3)]"
  have t13: "token ?N ?w13 = Some ''77''" by code_simp
  have d13: "path_exists ?w13 (cache_dir ?c)" by code_simp
  have m13: "\<not> path_exists (with_cache_dir ?c ?w13) (cache_file ?c ''77'')" by code_simp
  have o13: "check_output ?w13 (cmd ?c) = Inr ''{items: 3}''" by code_simp
  have j13: "json_loads ?N ''{items: 3}'' = Some ?d13" by code_simp
  have e13: "count_items ?d13 = Inl TypeError" by code_simp
  from lg[of ?w13, THEN conjunct2, THEN conjunct2, THEN conjunct2, THEN conjunct2,
      THEN conjunct2, THEN conjunct2, THEN conjunct2, THEN conjunct2,
      THEN conjunct2, THEN conjunct2, THEN conjunct2, THEN conjunct2,
      THEN conjunct1, rule_format,
      of "''77''" "''{items: 3}''" ?d13 TypeError] t13 d13 m13 o13 j13 e13
  have c13: "fst (load ?N ?c ?w13) = Inl TypeError" by simp
  from lg[of sample_world, THEN conjunct2, THEN conjunct2, THEN conjunct2, THEN conjunct2,
      THEN conjunct2, THEN conjunct2, THEN conjunct2, THEN conjunct2,
      THEN conjunct2, THEN conjunct2, THEN conjunct2, THEN conjunct2,
      THEN conjunct2, THEN conjunct1, rule_format,
      of "JArr []"]
  have c14: "\<exists>e. count_items (JArr []) = Inl e" by simp
  let ?w15 = "cached_world\<lparr>files := [''/cache/_fuzzy/5.json'' \<mapsto> ''{}'']\<rparr>"
  have t15: "token ?N ?w15 = Some ''5''" by code_simp
  have d15: "path_exists ?w15 (cache_dir ?c)" by code_simp
  have f15: "files ?w15 (cache_file ?c ''5'') = Some ''{}''" by code_simp
  have r15: "cache_file ?c ''5'' \<notin> no_read ?w15" by code_simp
  have j15: "json_loads ?N ''{}'' = Some (JObj [])" by code_simp
  have g15: "dict_get [] (u ''items'') = None" by code_simp
  from lg[of ?w15, THEN conjunct2, THEN conjunct2, THEN conjunct2, THEN conjunct2,
      THEN conjunct2, THEN conjunct2, THEN conjunct2, THEN conjunct2,
      THEN conjunct2, THEN conjunct2, THEN conjunct2, THEN conjunct2,
      THEN conjunct2, THEN conjunct2, THEN conjunct1, rule_format,
      of "''5''" "''{}''" "[]"] t15 d15 f15 r15 j15 g15
  have c15: "fst (load ?N ?c ?w15) = Inr (JObj [])" by simp
  let ?w16 = "sample_world\<lparr>check_output := (\<lambda>c. Inr ''{}'')\<rparr>"
  have n16: "token ?N ?w16 = None" by code_simp
  have o16: "check_output ?w16 (cmd ?c) = Inr ''{}''" by code_simp
  have a16: "add_session_id ?N (JObj []) (str_nat (getpid ?w16)) = Inr doc_vars5" by code_simp
  have d16: "cache_dir ?c \<notin> no_mkdir ?w16" by code_simp
  have k16: "cache_file ?c (str_nat (getpid ?w16)) \<notin> no_write ?w16" by code_simp
  have p16: "cache_file ?c (str_nat (getpid sample_world)) = ''/cache/_fuzzy/5.json''"
    by code_simp
  have s16: "json_dumps ?N doc_vars5 = ''{variables: {fuzzy_session_id: 5}}''" by code_simp
  from lg[of ?w16, THEN conjunct2, THEN conjunct2, THEN conjunct2, THEN conjunct2,
      THEN conjunct2, THEN conjunct2, THEN conjunct2, THEN conjunct2,
      THEN conjunct2, THEN conjunct2, THEN conjunct2, THEN conjunct2,
      THEN conjunct2, THEN conjunct2, THEN conjunct2, rule_format,
      of "''{}''" "[]" doc_vars5] n16 o16 j15 g15 a16 d16 k16
  have c16': "fst (load ?N ?c ?w16) = Inr doc_vars5 \<and>
    files (snd (snd (load ?N ?c ?w16))) =
      (files ?w16)(cache_file ?c (str_nat (getpid ?w16)) \<mapsto> json_dumps ?N doc_vars5)"
    by simp
  have c16: "fst (load ?N ?c ?w16) = Inr doc_vars5"
    "files (snd (snd (load ?N ?c ?w16))) ''/cache/_fuzzy/5.json''
       = Some ''{variables: {fuzzy_session_id: 5}}''"
    using c16' by (simp_all add: p16 s16)
  from fresh_sample n1 c1 j c2 t3 c3 c4 f5 c5 k6 c6 c7 k8' c8 c9
    j10 c10 j11 c11 c12 j13 c13 c14 j15 c15 c16
  show ?thesis by (intro conjI)
qed

end
